theory Spec2Isabelle
  imports Main "HOL-Library.Word" "HOL-Library.Sublist"
begin

section \<open>Errors\<close>

text \<open>
  Go error values as far as \<^verbatim>\<open>init.go\<close> looks at them: the message (\<^verbatim>\<open>Error()\<close>),
  the chain followed by \<^verbatim>\<open>Unwrap\<close>, and membership of \<^verbatim>\<open>config.UnsupportedFieldError\<close>
  in that chain (\<^verbatim>\<open>errors.As\<close>).
  \<^item> \<open>errorString\<close>: what \<^verbatim>\<open>errors.New\<close> and \<^verbatim>\<open>fmt.Errorf\<close> without \<^verbatim>\<open>%w\<close> return;
  \<^item> \<open>PathError\<close>: \<^verbatim>\<open>os.PathError{Op, Path, Err}\<close>, the error of a file operation;
  \<^item> \<open>UnsupportedFieldError\<close>: \<^verbatim>\<open>config.UnsupportedFieldError{Version, Field}\<close>;
  \<^item> \<open>wrapError\<close>: \<^verbatim>\<open>fmt.Errorf\<close> with \<^verbatim>\<open>%w\<close>, a message around another error.
\<close>

datatype error =
    errorString string
  | PathError string string error
  | UnsupportedFieldError string string
  | wrapError string error

fun Error :: "error \<Rightarrow> string" where
  "Error (errorString s) = s"
| "Error (PathError opn p e) = opn @ '' '' @ p @ '': '' @ Error e"
| "Error (UnsupportedFieldError v f) =
     ''version '' @ v @ '' does not support the '' @ f @ '' field''"
| "Error (wrapError s e) = s"

text \<open>\<^verbatim>\<open>errors.As(err, &config.UnsupportedFieldError{})\<close>: walks the \<^verbatim>\<open>Unwrap\<close> chain.\<close>

fun As_UnsupportedFieldError :: "error \<Rightarrow> bool" where
  "As_UnsupportedFieldError (errorString s) = False"
| "As_UnsupportedFieldError (PathError opn p e) = As_UnsupportedFieldError e"
| "As_UnsupportedFieldError (UnsupportedFieldError v f) = True"
| "As_UnsupportedFieldError (wrapError s e) = As_UnsupportedFieldError e"

text \<open>\<^verbatim>\<open>fmt.Errorf(format + "%v", err)\<close>: a fresh error whose message ends in the
  message of \<open>err\<close>; it has no \<^verbatim>\<open>Unwrap\<close>.\<close>

definition Errorf :: "string \<Rightarrow> error \<Rightarrow> error" where
  "Errorf fmt err = errorString (fmt @ Error err)"



section \<open>Regular expressions\<close>

text \<open>
  Go's \<^verbatim>\<open>regexp\<close> reads its input as UTF-8: every step of the matcher takes one rune,
  decoded as \<^verbatim>\<open>utf8.DecodeRune\<close> does. A rune is a byte below \<^verbatim>\<open>0x80\<close>, or a well-formed
  sequence of two to four bytes; a byte with which no well-formed sequence begins is a
  rune of its own (the matcher sees it as \<^verbatim>\<open>U+FFFD\<close>, of width one).

  \<open>lead p0\<close> is what the tables \<^verbatim>\<open>first\<close> and \<^verbatim>\<open>acceptRanges\<close> of package \<^verbatim>\<open>utf8\<close> say of a
  first byte that opens a sequence: the size of the sequence and the range in which the
  second byte must lie. The bytes behind the second must lie between \<^verbatim>\<open>0x80\<close> and
  \<^verbatim>\<open>0xBF\<close>. \<open>tail_size p0 s\<close> is the number of bytes of \<open>s\<close> that belong to the rune which
  begins with \<open>p0\<close>: the size that \<^verbatim>\<open>DecodeRune\<close> returns, less one. \<open>decode s\<close> cuts the
  bytes \<open>s\<close> into its runes, each rune given by its bytes.
\<close>

definition ascii :: "char \<Rightarrow> bool" where
  "ascii c = (of_char c < (0x80 :: nat))"

definition between :: "nat \<Rightarrow> nat \<Rightarrow> char \<Rightarrow> bool" where
  "between lo hi c = (lo \<le> of_char c \<and> of_char c \<le> hi)"

definition lead :: "char \<Rightarrow> (nat \<times> nat \<times> nat) option" where
  "lead p0 =
     (let x = of_char p0 :: nat in
      if x < 0xC2 then None
      else if x \<le> 0xDF then Some (2, 0x80, 0xBF)
      else if x = 0xE0 then Some (3, 0xA0, 0xBF)
      else if x = 0xED then Some (3, 0x80, 0x9F)
      else if x \<le> 0xEF then Some (3, 0x80, 0xBF)
      else if x = 0xF0 then Some (4, 0x90, 0xBF)
      else if x \<le> 0xF3 then Some (4, 0x80, 0xBF)
      else if x = 0xF4 then Some (4, 0x80, 0x8F)
      else None)"

definition tail_size :: "char \<Rightarrow> string \<Rightarrow> nat" where
  "tail_size p0 s =
     (case lead p0 of
        None \<Rightarrow> 0
      | Some (sz, lo, hi) \<Rightarrow>
          (case s of
             [] \<Rightarrow> 0
           | b1 # s1 \<Rightarrow>
               if \<not> between lo hi b1 then 0
               else if sz = 2 then 1
               else (case s1 of
                       [] \<Rightarrow> 0
                     | b2 # s2 \<Rightarrow>
                         if \<not> between 0x80 0xBF b2 then 0
                         else if sz = 3 then 2
                         else (case s2 of
                                 [] \<Rightarrow> 0
                               | b3 # s3 \<Rightarrow> if between 0x80 0xBF b3 then 3 else 0))))"

type_synonym rune = string

function decode :: "string \<Rightarrow> rune list" where
  "decode [] = []"
| "decode (c # s) = (c # take (tail_size c s) s) # decode (drop (tail_size c s) s)"
  by pat_completeness auto
termination
  by (relation "measure length") auto

text \<open>
  The fragment of the syntax that the table uses: a sequence of items, each a
  single-rune matcher or a greedy \<^verbatim>\<open>+\<close> of one. A single-rune matcher is a literal,
  \<^verbatim>\<open>.\<close> (any rune but newline, Go's default) or a negated class \<^verbatim>\<open>[^...]\<close>. The
  characters written in the patterns of the table are all below \<^verbatim>\<open>0x80\<close>, so a rune is one
  of them exactly when it is that single byte.
\<close>

datatype atom = Lit char | AnyCharNotNL | NotIn "char list"

datatype item = One atom | Plus atom

type_synonym Regexp = "item list"

fun atom_matches :: "atom \<Rightarrow> rune \<Rightarrow> bool" where
  "atom_matches (Lit a) r = (r = [a])"
| "atom_matches AnyCharNotNL r = (r \<noteq> [CHR ''\<newline>''])"
| "atom_matches (NotIn cs) r = (r \<notin> set (map (\<lambda>c. [c]) cs))"

text \<open>
  \<open>match_here re s\<close>: the length, in runes, of the match of \<open>re\<close> that starts at the first
  rune of \<open>s\<close>, if there is one. A \<^verbatim>\<open>+\<close> takes as many runes as it can and gives them back
  one at a time when the rest fails (leftmost-first matching).
\<close>

fun match_here :: "Regexp \<Rightarrow> rune list \<Rightarrow> nat option" where
  "match_here [] s = Some 0"
| "match_here (One a # r) [] = None"
| "match_here (One a # r) (c # s) =
     (if atom_matches a c then map_option Suc (match_here r s) else None)"
| "match_here (Plus a # r) [] = None"
| "match_here (Plus a # r) (c # s) =
     (if atom_matches a c
      then (case match_here (Plus a # r) s of
              Some n \<Rightarrow> Some (Suc n)
            | None \<Rightarrow> map_option Suc (match_here r s))
      else None)"

text \<open>
  The scan of \<^verbatim>\<open>ReplaceAll\<close> over the runes of the input: at the leftmost rune where \<open>re\<close>
  matches, the match is replaced by \<open>repl\<close> and the scan goes on behind it; a rune at
  which nothing matches is copied. An empty match is passed over like no match: every
  pattern of the table matches at least two runes.
\<close>

function replaceAll :: "Regexp \<Rightarrow> rune list \<Rightarrow> rune list \<Rightarrow> rune list" where
  "replaceAll re [] repl = []"
| "replaceAll re (c # s) repl =
     (case match_here re (c # s) of
        Some (Suc n) \<Rightarrow> repl @ replaceAll re (drop n s) repl
      | _ \<Rightarrow> c # replaceAll re s repl)"
  by pat_completeness auto
termination
  by (relation "measure (\<lambda>(re, s, repl). length s)") auto

text \<open>
  \<^verbatim>\<open>re.ReplaceAll(src, repl)\<close> on bytes: the bytes of the runes that were copied and, for
  every match, the bytes of \<open>repl\<close>. No replacement text of the table contains \<^verbatim>\<open>$\<close>, so
  \<open>repl\<close> is copied as it is.
\<close>

definition ReplaceAll :: "Regexp \<Rightarrow> string \<Rightarrow> string \<Rightarrow> string" where
  "ReplaceAll re src repl = concat (replaceAll re (decode src) (decode repl))"



section \<open>The substitution table\<close>

definition ocpProductVersion :: string where
  "ocpProductVersion = ''4.14''"

definition ubiMinimalVersion :: string where
  "ubiMinimalVersion = ''8.8''"

record substitution =
  fromTagRE :: Regexp
  toTag :: string

definition lit :: "string \<Rightarrow> Regexp" where
  "lit s = map (\<lambda>c. One (Lit c)) s"

definition dot :: Regexp where
  "dot = [One AnyCharNotNL]"

text \<open>\<^verbatim>\<open>[^ \n]+\<close>\<close>
definition tag :: Regexp where
  "tag = [Plus (NotIn [CHR '' '', CHR ''\<newline>''])]"

text \<open>\<^verbatim>\<open>filepath.Join\<close> on elements that are already clean: joined by the separator.\<close>

fun Join :: "string list \<Rightarrow> string" where
  "Join [] = []"
| "Join [p] = p"
| "Join (p # ps) = p @ ''/'' @ Join ps"

text \<open>\<^verbatim>\<open>gcr.io/kubebuilder/kube-rbac-proxy:[^ \n]+\<close>\<close>
definition re_kube_rbac_proxy :: Regexp where
  "re_kube_rbac_proxy = lit ''gcr'' @ dot @ lit ''io/kubebuilder/kube-rbac-proxy:'' @ tag"

text \<open>\<^verbatim>\<open>quay.io/operator-framework/ansible-operator:[^ \n]+\<close>\<close>
definition re_ansible :: Regexp where
  "re_ansible = lit ''quay'' @ dot @ lit ''io/operator-framework/ansible-operator:'' @ tag"

text \<open>\<^verbatim>\<open>quay.io/operator-framework/helm-operator:[^ \n]+\<close>\<close>
definition re_helm :: Regexp where
  "re_helm = lit ''quay'' @ dot @ lit ''io/operator-framework/helm-operator:'' @ tag"

text \<open>\<^verbatim>\<open>gcr.io/distroless/static:[^ \n]+\<close>\<close>
definition re_distroless :: Regexp where
  "re_distroless = lit ''gcr'' @ dot @ lit ''io/distroless/static:'' @ tag"

text \<open>\<^verbatim>\<open>golang:[^ \n]+\<close>\<close>
definition re_golang :: Regexp where
  "re_golang = lit ''golang:'' @ tag"

text \<open>\<^verbatim>\<open>registry.access.redhat.com/ubi8/ubi-micro:[^ \n]+\<close>\<close>
definition re_ubi_micro :: Regexp where
  "re_ubi_micro = lit ''registry'' @ dot @ lit ''access'' @ dot @ lit ''redhat'' @ dot
     @ lit ''com/ubi8/ubi-micro:'' @ tag"

text \<open>\<^verbatim>\<open>golang.org/x/net [^ \n]+\<close>\<close>
definition re_x_net :: Regexp where
  "re_x_net = lit ''golang'' @ dot @ lit ''org/x/net '' @ tag"

text \<open>\<^verbatim>\<open>go 1.[^2\n]+\<close>\<close>
definition re_go_version :: Regexp where
  "re_go_version = lit ''go 1'' @ dot @ [Plus (NotIn [CHR ''2'', CHR ''\<newline>''])]"

text \<open>
  \<^verbatim>\<open>imageSubstitutions\<close>: the map literal, as the list of its entries in the order of
  the source. The order in which \<^verbatim>\<open>range\<close> visits them is not this one: see
  \<open>range_order\<close>.
\<close>

definition imageSubstitutions :: "(string \<times> substitution list) list" where
  "imageSubstitutions =
   [(Join [''config'', ''default'', ''manager_auth_proxy_patch.yaml''],
     [\<lparr>fromTagRE = re_kube_rbac_proxy,
       toTag = ''registry.redhat.io/openshift4/ose-kube-rbac-proxy:v'' @ ocpProductVersion\<rparr>]),
    (Join [''Dockerfile''],
     [\<lparr>fromTagRE = re_ansible,
       toTag = ''registry.redhat.io/openshift4/ose-ansible-operator:v'' @ ocpProductVersion\<rparr>,
      \<lparr>fromTagRE = re_helm,
       toTag = ''registry.redhat.io/openshift4/ose-helm-operator:v'' @ ocpProductVersion\<rparr>,
      \<lparr>fromTagRE = re_distroless,
       toTag = ''registry.access.redhat.com/ubi8/ubi-minimal:'' @ ubiMinimalVersion\<rparr>,
      \<lparr>fromTagRE = re_golang,
       toTag = ''golang:1.20''\<rparr>,
      \<lparr>fromTagRE = re_ubi_micro,
       toTag = ''registry.access.redhat.com/ubi8/ubi-micro:'' @ ubiMinimalVersion\<rparr>]),
    (Join [''go.mod''],
     [\<lparr>fromTagRE = re_x_net,
       toTag = ''golang.org/x/net v0.17.0''\<rparr>,
      \<lparr>fromTagRE = re_go_version,
       toTag = ''go 1.20''\<rparr>])]"

text \<open>
  \<^verbatim>\<open>for filePath, substitutions := range imageSubstitutions\<close> visits every entry of the
  map once, in an order the language leaves open. \<open>range_order es\<close>: \<open>es\<close> is one of
  these orders.
\<close>

definition range_order :: "(string \<times> substitution list) list \<Rightarrow> bool" where
  "range_order es = (distinct es \<and> set es = set imageSubstitutions)"


section \<open>The filesystem and the configuration store\<close>

text \<open>\<^verbatim>\<open>os.FileMode\<close> is a \<^verbatim>\<open>uint32\<close>.\<close>
type_synonym FileMode = "32 word"

record File =
  content :: string
  mode :: FileMode

text \<open>The calls the step makes on its two collaborators, as they are made.\<close>

datatype event =
    EvReadFile string
  | EvStat string
  | EvWriteFile string string FileMode
  | EvEncodePluginConfig string

text \<open>
  The state around one run: the files behind \<^verbatim>\<open>fs.FS\<close>, the errors that the
  filesystem answers with (per operation and path; none means the operation works as on
  a memory filesystem), the state of the injected \<^verbatim>\<open>config.Config\<close>, and the journal
  of the calls made so far.
\<close>

record 'c world =
  files :: "string \<rightharpoonup> File"
  read_fault :: "string \<rightharpoonup> error"
  stat_fault :: "string \<rightharpoonup> error"
  write_fault :: "string \<rightharpoonup> error"
  config :: 'c
  journal :: "event list"

definition ErrNotExist :: error where
  "ErrNotExist = errorString ''file does not exist''"

text \<open>\<^verbatim>\<open>afero.ReadFile(fs.FS, filePath)\<close>\<close>
definition ReadFile :: "string \<Rightarrow> 'c world \<Rightarrow> (error + string) \<times> 'c world" where
  "ReadFile p w =
     (let w' = w\<lparr>journal := journal w @ [EvReadFile p]\<rparr> in
      case read_fault w p of
        Some e \<Rightarrow> (Inl e, w')
      | None \<Rightarrow> (case files w p of
                  None \<Rightarrow> (Inl (PathError ''open'' p ErrNotExist), w')
                | Some f \<Rightarrow> (Inr (content f), w')))"

text \<open>\<^verbatim>\<open>fs.FS.Stat(filePath)\<close>, read through \<^verbatim>\<open>info.Mode()\<close>\<close>
definition Stat :: "string \<Rightarrow> 'c world \<Rightarrow> (error + FileMode) \<times> 'c world" where
  "Stat p w =
     (let w' = w\<lparr>journal := journal w @ [EvStat p]\<rparr> in
      case stat_fault w p of
        Some e \<Rightarrow> (Inl e, w')
      | None \<Rightarrow> (case files w p of
                  None \<Rightarrow> (Inl (PathError ''stat'' p ErrNotExist), w')
                | Some f \<Rightarrow> (Inr (mode f), w')))"

text \<open>
  \<^verbatim>\<open>afero.WriteFile(fs.FS, filePath, b, perm)\<close>: opens with
  \<^verbatim>\<open>O_WRONLY|O_CREATE|O_TRUNC\<close>, so \<open>perm\<close> is the mode of a file that the call
  creates, and a file that exists keeps its mode. A write that the filesystem answers
  with an error leaves the files as they were.
\<close>
definition WriteFile :: "string \<Rightarrow> string \<Rightarrow> FileMode \<Rightarrow> 'c world \<Rightarrow> error option \<times> 'c world" where
  "WriteFile p b perm w =
     (let w' = w\<lparr>journal := journal w @ [EvWriteFile p b perm]\<rparr> in
      case write_fault w p of
        Some e \<Rightarrow> (Some e, w')
      | None \<Rightarrow>
          (None, w'\<lparr>files := (files w)(p \<mapsto>
             \<lparr>content = b,
              mode = (case files w p of None \<Rightarrow> perm | Some f \<Rightarrow> mode f)\<rparr>)\<rparr>))"

text \<open>
  \<^verbatim>\<open>s.config.EncodePluginConfig(pluginKey, Config{})\<close>: \<open>enc\<close> is the method of
  whatever \<^verbatim>\<open>config.Config\<close> was injected; it answers with an error or none and may
  change the store. The payload \<^verbatim>\<open>Config{}\<close> is the empty struct.
\<close>
definition EncodePluginConfig ::
  "(string \<Rightarrow> 'c \<Rightarrow> error option \<times> 'c) \<Rightarrow> string \<Rightarrow> 'c world \<Rightarrow> error option \<times> 'c world" where
  "EncodePluginConfig enc key w =
     (case enc key (config w) of
        (r, c') \<Rightarrow> (r, w\<lparr>config := c', journal := journal w @ [EvEncodePluginConfig key]\<rparr>))"


section \<open>The applier and the step\<close>

text \<open>The inner loop of \<^verbatim>\<open>replaceImages\<close>: every substitution of a file, in list order.\<close>

fun apply_substitutions :: "substitution list \<Rightarrow> string \<Rightarrow> string" where
  "apply_substitutions [] b = b"
| "apply_substitutions (subst # substitutions) b =
     apply_substitutions substitutions (ReplaceAll (fromTagRE subst) b (toTag subst))"

text \<open>\<^verbatim>\<open>replaceImages\<close>, on the entries in the order \<^verbatim>\<open>range\<close> yields them.\<close>

fun replaceImages :: "(string \<times> substitution list) list \<Rightarrow> 'c world \<Rightarrow> error option \<times> 'c world" where
  "replaceImages [] w = (None, w)"
| "replaceImages ((filePath, substitutions) # rest) w =
     (case ReadFile filePath w of
        (Inl err, w1) \<Rightarrow> (Some (Errorf ''error reading file for substitution: '' err), w1)
      | (Inr b, w1) \<Rightarrow>
          (case Stat filePath w1 of
             (Inl err, w2) \<Rightarrow>
               (Some (Errorf ''error reading file info for substitution: '' err), w2)
           | (Inr info, w2) \<Rightarrow>
               (case WriteFile filePath (apply_substitutions substitutions b) info w2 of
                  (Some err, w3) \<Rightarrow> (Some err, w3)
                | (None, w3) \<Rightarrow> replaceImages rest w3)))"

text \<open>
  \<^verbatim>\<open>initSubcommand.Scaffold\<close>. \<open>pluginKey\<close> is a constant of the package that
  \<^verbatim>\<open>init.go\<close> does not declare; it is a parameter here.
\<close>

definition Scaffold ::
  "(string \<Rightarrow> 'c \<Rightarrow> error option \<times> 'c) \<Rightarrow> string \<Rightarrow> (string \<times> substitution list) list
     \<Rightarrow> 'c world \<Rightarrow> error option \<times> 'c world" where
  "Scaffold enc pluginKey order w =
     (case replaceImages order w of
        (Some err, w1) \<Rightarrow> (Some err, w1)
      | (None, w1) \<Rightarrow>
          (case EncodePluginConfig enc pluginKey w1 of
             (Some err, w2) \<Rightarrow>
               (if \<not> As_UnsupportedFieldError err
                then (Some (errorString (''error writing plugin config for '' @ pluginKey
                              @ '': '' @ Error err)), w2)
                else (None, w2))
           | (None, w2) \<Rightarrow> (None, w2)))"


section \<open>Vocabulary of the statements\<close>

text \<open>\<open>io_ok w p\<close>: the file \<open>p\<close> exists and the filesystem answers none of the three
  operations on it with an error.\<close>

definition io_ok :: "'c world \<Rightarrow> string \<Rightarrow> bool" where
  "io_ok w p = (read_fault w p = None \<and> stat_fault w p = None \<and> write_fault w p = None
                \<and> files w p \<noteq> None)"

text \<open>The path a filesystem call is made on; a call on the configuration store has none.\<close>

fun event_path :: "event \<Rightarrow> string option" where
  "event_path (EvReadFile p) = Some p"
| "event_path (EvStat p) = Some p"
| "event_path (EvWriteFile p b m) = Some p"
| "event_path (EvEncodePluginConfig k) = None"

definition fs_event :: "event \<Rightarrow> bool" where
  "fs_event ev = (event_path ev \<noteq> None)"

text \<open>The calls made between the state \<open>w\<close> and the later state \<open>w'\<close>.\<close>

definition new_events :: "'c world \<Rightarrow> 'c world \<Rightarrow> event list" where
  "new_events w w' = drop (length (journal w)) (journal w')"

text \<open>\<open>is_write ev\<close>: the call \<open>ev\<close> is a call of \<^verbatim>\<open>afero.WriteFile\<close>.\<close>

fun is_write :: "event \<Rightarrow> bool" where
  "is_write (EvWriteFile p b m) = True"
| "is_write ev = False"

text \<open>One passage through the body of the loop of \<^verbatim>\<open>replaceImages\<close> when nothing fails.\<close>

definition visit :: "string \<Rightarrow> substitution list \<Rightarrow> 'c world \<Rightarrow> 'c world" where
  "visit p ss w =
     (case files w p of
        None \<Rightarrow> w
      | Some f \<Rightarrow>
          w\<lparr>journal := journal w @ [EvReadFile p, EvStat p,
                 EvWriteFile p (apply_substitutions ss (content f)) (mode f)],
            files := (files w)(p \<mapsto> \<lparr>content = apply_substitutions ss (content f), mode = mode f\<rparr>)\<rparr>)"



section \<open>Vocabulary of the proofs about patterns\<close>

text \<open>\<open>matches_at re s\<close>: \<open>re\<close> has a non-empty match that starts at the first rune
  of \<open>s\<close>; \<open>match_in re s\<close>: it has one at some rune of \<open>s\<close>; \<open>has_match re b\<close>: it has one
  in the bytes \<open>b\<close>.\<close>

fun matches_at :: "Regexp \<Rightarrow> rune list \<Rightarrow> bool" where
  "matches_at re s = (case match_here re s of Some (Suc n) \<Rightarrow> True | _ \<Rightarrow> False)"

fun match_in :: "Regexp \<Rightarrow> rune list \<Rightarrow> bool" where
  "match_in re [] = False"
| "match_in re (c # s) = (matches_at re (c # s) \<or> match_in re s)"

definition has_match :: "Regexp \<Rightarrow> string \<Rightarrow> bool" where
  "has_match re b = match_in re (decode b)"

text \<open>\<open>rules_for p\<close>: the substitutions the table has under the key \<open>p\<close>, none for a path
  that is not a key.\<close>

definition rules_for :: "string \<Rightarrow> substitution list" where
  "rules_for p = (case map_of imageSubstitutions p of Some ss \<Rightarrow> ss | None \<Rightarrow> [])"

text \<open>
  Every pattern of the table is a run of single-rune matchers followed by one greedy
  class: \<open>rx A\<close> for the list \<open>A\<close> of its matchers, the class last; \<open>atoms_of\<close> reads
  \<open>A\<close> off a pattern of this shape. Such a pattern matches at the head of \<open>s\<close> exactly when
  the matchers accept the first runes of \<open>s\<close> one by one (\<open>starts A s\<close>); the match
  then runs to the first rune the class rejects, and \<open>after A s\<close> is what follows it.
  \<open>RA A repl\<close> is the scan of \<^verbatim>\<open>ReplaceAll\<close> for the pattern \<open>rx A\<close>; \<open>rules ss\<close> are the
  substitutions \<open>ss\<close> in this form, and \<open>applyR\<close> applies them in a row to the runes of a
  text.
\<close>

fun starts :: "atom list \<Rightarrow> rune list \<Rightarrow> bool" where
  "starts [] s = True"
| "starts (a # A) [] = False"
| "starts (a # A) (c # s) = (atom_matches a c \<and> starts A s)"

fun atoms_of :: "Regexp \<Rightarrow> atom list option" where
  "atoms_of [] = None"
| "atoms_of [Plus a] = Some [a]"
| "atoms_of (Plus a # r) = None"
| "atoms_of (One a # r) = map_option ((#) a) (atoms_of r)"

definition atoms :: "Regexp \<Rightarrow> atom list" where
  "atoms re = (case atoms_of re of Some A \<Rightarrow> A | None \<Rightarrow> [])"

definition rx :: "atom list \<Rightarrow> Regexp" where
  "rx A = map One (butlast A) @ [Plus (last A)]"

definition after :: "atom list \<Rightarrow> rune list \<Rightarrow> rune list" where
  "after A s = dropWhile (atom_matches (last A)) (drop (length A - 1) s)"

definition RA :: "atom list \<Rightarrow> rune list \<Rightarrow> rune list \<Rightarrow> rune list" where
  "RA A repl s = replaceAll (rx A) s repl"

definition rules :: "substitution list \<Rightarrow> (atom list \<times> rune list) list" where
  "rules ss = map (\<lambda>s. (atoms (fromTagRE s), decode (toTag s))) ss"

fun applyR :: "(atom list \<times> rune list) list \<Rightarrow> rune list \<Rightarrow> rune list" where
  "applyR [] b = b"
| "applyR ((A, r) # rs) b = applyR rs (RA A r b)"

text \<open>
  \<open>aligned L\<close>: the runes \<open>L\<close> are the runes of their bytes, that is, decoding what \<open>L\<close>
  spells gives \<open>L\<close> again. \<open>plain rs\<close>: every pattern of the list \<open>rs\<close> begins with a
  literal below \<^verbatim>\<open>0x80\<close> and every replacement text is a non-empty text of such bytes.
  For such rules the result of one substitution, written out as bytes and decoded again
  by the next, is cut into the same runes.
\<close>

definition aligned :: "rune list \<Rightarrow> bool" where
  "aligned L = (decode (concat L) = L)"

definition plain_rule :: "atom list \<Rightarrow> rune list \<Rightarrow> bool" where
  "plain_rule A r =
     (A \<noteq> [] \<and> (case hd A of Lit g \<Rightarrow> ascii g | _ \<Rightarrow> False) \<and>
      r \<noteq> [] \<and> list_all (\<lambda>x. length x = 1 \<and> ascii (hd x)) r)"

definition plain :: "(atom list \<times> rune list) list \<Rightarrow> bool" where
  "plain rs = list_all (\<lambda>(A, r). plain_rule A r) rs"

text \<open>
  A text is stable for a rule when, wherever the rule's pattern matches in it, the match
  is the rule's replacement text itself: replacing changes nothing.
\<close>

definition good :: "atom list \<Rightarrow> rune list \<Rightarrow> rune list \<Rightarrow> bool" where
  "good A repl t = (starts A t \<longrightarrow> prefix repl t \<and> after A t = drop (length repl) t)"

definition stable :: "atom list \<Rightarrow> rune list \<Rightarrow> rune list \<Rightarrow> bool" where
  "stable A repl y = (\<forall>t. suffix t y \<longrightarrow> good A repl t)"

text \<open>
  Checks on the known head of a text. \<open>refutes A s\<close>: one of the matchers rejects the
  rune of \<open>s\<close> it meets, so the pattern matches at the head of no text that begins
  with \<open>s\<close>. \<open>covers A B\<close>: wherever the matchers \<open>B\<close> accept, the matchers \<open>A\<close> accept.
  \<open>self_match A repl\<close>: the pattern matches the whole of \<open>repl\<close>.
\<close>

fun refutes :: "atom list \<Rightarrow> rune list \<Rightarrow> bool" where
  "refutes (a # A) (c # s) = (\<not> atom_matches a c \<or> refutes A s)"
| "refutes A s = False"

fun accepts_all :: "atom \<Rightarrow> atom \<Rightarrow> bool" where
  "accepts_all a (Lit c) = atom_matches a [c]"
| "accepts_all a b = (a = b)"

fun covers :: "atom list \<Rightarrow> atom list \<Rightarrow> bool" where
  "covers [] B = True"
| "covers (a # A) [] = False"
| "covers (a # A) (b # B) = (accepts_all a b \<and> covers A B)"

definition self_match :: "atom list \<Rightarrow> rune list \<Rightarrow> bool" where
  "self_match A repl =
     (starts A repl \<and> list_all (atom_matches (last A)) (drop (length A - 1) repl))"

text \<open>
  \<open>self_ok A r\<close>: replacing with the rule \<open>(A, r)\<close> leaves a text that is stable for this
  rule. \<open>pair_ok B rb A ra\<close>: replacing with \<open>(A, ra)\<close> keeps a text stable for \<open>(B, rb)\<close>.
  \<open>convergent rs\<close>: both hold along the list, each rule against the ones behind it.
  All three are decided by running the matchers over the replacement texts.
\<close>

definition self_ok :: "atom list \<Rightarrow> rune list \<Rightarrow> bool" where
  "self_ok A r =
     (A \<noteq> [] \<and> r \<noteq> [] \<and>
      list_all (\<lambda>sfx. sfx = [] \<or> refutes A sfx \<or> (sfx = r \<and> self_match A r \<and> covers [last A] A))
        (suffixes r) \<and>
      list_all (\<lambda>i. refutes (drop i A) r \<or> covers (drop i A) A) [1..<length A])"

definition pair_ok :: "atom list \<Rightarrow> rune list \<Rightarrow> atom list \<Rightarrow> rune list \<Rightarrow> bool" where
  "pair_ok B rb A ra =
     (list_all (\<lambda>sfx. sfx = [] \<or> refutes B sfx) (suffixes ra) \<and>
      list_all (\<lambda>i. refutes (drop i B) ra \<or> covers (drop i B) A) [1..<length B] \<and>
      list_all (\<lambda>sfx. sfx = [] \<or> refutes A sfx) (suffixes rb) \<and>
      (refutes B rb \<or> self_match B rb) \<and> covers [last B] A)"

fun convergent :: "(atom list \<times> rune list) list \<Rightarrow> bool" where
  "convergent [] = True"
| "convergent ((B, rb) # rs) =
     (self_ok B rb \<and> list_all (\<lambda>(A, ra). A \<noteq> [] \<and> ra \<noteq> [] \<and> pair_ok B rb A ra) rs \<and> convergent rs)"


text \<open>
  \<open>skips A u\<close>: the pattern matches at no rune of the known text \<open>u\<close>, whatever
  follows \<open>u\<close>. \<open>nl_free A\<close>: no matcher of the pattern accepts a newline, so no match
  crosses a line end; \<open>lines_ok rs\<close>: this holds for every rule of the list.
  \<open>at_line_start occ s\<close>: the text \<open>s\<close> has \<open>occ\<close> at the beginning of one of its lines.
\<close>

definition skips :: "atom list \<Rightarrow> rune list \<Rightarrow> bool" where
  "skips A u = list_all (\<lambda>sfx. sfx = [] \<or> refutes A sfx) (suffixes u)"

definition nl_free :: "atom list \<Rightarrow> bool" where
  "nl_free A = list_all (\<lambda>a. \<not> atom_matches a [CHR ''\<newline>'']) A"

definition lines_ok :: "(atom list \<times> rune list) list \<Rightarrow> bool" where
  "lines_ok rs = list_all (\<lambda>(A, r). A \<noteq> [] \<and> nl_free A) rs"

definition at_line_start :: "string \<Rightarrow> string \<Rightarrow> bool" where
  "at_line_start occ s = (prefix occ s \<or> sublist (CHR ''\<newline>'' # occ) s)"



section \<open>Example states\<close>

text \<open>A freshly scaffolded Go project, a store that accepts the marker, one that does not
  support plugin configuration, one that fails, and one that refuses a key it already
  holds; a read-only filesystem, which answers every write with \<^verbatim>\<open>EPERM\<close>; a project
  without \<^verbatim>\<open>go.mod\<close>; a filesystem that hides \<^verbatim>\<open>go.mod\<close> and answers the read with the
  bare \<^verbatim>\<open>ENOENT\<close>, as \<^verbatim>\<open>afero.RegexpFs\<close> does for a name outside its pattern.\<close>

definition example_files :: "string \<rightharpoonup> File" where
  "example_files =
     [''config/default/manager_auth_proxy_patch.yaml'' \<mapsto>
        \<lparr>content = ''image: gcr.io/kubebuilder/kube-rbac-proxy:v0.13.1\<newline>'', mode = 0x1A4\<rparr>,
      ''Dockerfile'' \<mapsto>
        \<lparr>content = ''FROM golang:1.19 as builder\<newline>FROM gcr.io/distroless/static:nonroot\<newline>'',
         mode = 0x1A4\<rparr>,
      ''go.mod'' \<mapsto>
        \<lparr>content = ''go 1.19\<newline>require golang.org/x/net v0.10.0\<newline>'', mode = 0x1A4\<rparr>,
      ''main.go'' \<mapsto> \<lparr>content = ''package main\<newline>'', mode = 0x1A4\<rparr>]"

definition example_world :: "string list world" where
  "example_world = \<lparr>files = example_files, read_fault = Map.empty, stat_fault = Map.empty,
     write_fault = Map.empty, config = [], journal = []\<rparr>"

definition enc_store :: "string \<Rightarrow> string list \<Rightarrow> error option \<times> string list" where
  "enc_store key c = (None, key # c)"

definition enc_unsupported :: "string \<Rightarrow> string list \<Rightarrow> error option \<times> string list" where
  "enc_unsupported key c = (Some (UnsupportedFieldError ''2'' ''plugins''), c)"

definition enc_broken :: "string \<Rightarrow> string list \<Rightarrow> error option \<times> string list" where
  "enc_broken key c = (Some (errorString ''yaml: marshal failed''), c)"

definition enc_once :: "string \<Rightarrow> string list \<Rightarrow> error option \<times> string list" where
  "enc_once key c =
     (if key \<in> set c then (Some (errorString ''plugin config already present''), c)
      else (None, key # c))"

definition EPERM :: error where
  "EPERM = errorString ''operation not permitted''"

definition readonly_world :: "string list world" where
  "readonly_world = example_world\<lparr>write_fault := (\<lambda>p. Some EPERM)\<rparr>"

definition missing_world :: "string list world" where
  "missing_world = example_world\<lparr>files := example_files(''go.mod'' := None)\<rparr>"

text \<open>The project without \<^verbatim>\<open>go.mod\<close> whose \<^verbatim>\<open>Dockerfile\<close> cannot be written.\<close>

definition broken_world :: "string list world" where
  "broken_world = missing_world\<lparr>write_fault := [''Dockerfile'' \<mapsto> EPERM]\<rparr>"

definition ENOENT :: error where
  "ENOENT = errorString ''no such file or directory''"

definition hidden_world :: "string list world" where
  "hidden_world = example_world\<lparr>read_fault := [''go.mod'' \<mapsto> ENOENT]\<rparr>"



text \<open>A project whose \<^verbatim>\<open>Dockerfile\<close> has the distroless image reference in the middle of a
  word that begins with \<^verbatim>\<open>golang:\<close>.\<close>

definition adversarial_world :: "string list world" where
  "adversarial_world = example_world\<lparr>files := example_files(''Dockerfile'' \<mapsto>
     \<lparr>content = ''golang:FROM gcr.io/distroless/static:nonroot'', mode = 0x1A4\<rparr>)\<rparr>"

text \<open>A project whose \<^verbatim>\<open>Dockerfile\<close> takes its base image from a repository tagged
  \<^verbatim>\<open>golang:1.22\<close>, and whose \<^verbatim>\<open>go.mod\<close> has the directive and the pin on one line.\<close>

definition pinned_world :: "string list world" where
  "pinned_world = example_world\<lparr>files := example_files(
     ''Dockerfile'' \<mapsto>
       \<lparr>content = ''FROM registry.access.redhat.com/ubi8/ubi-micro:golang:1.22'', mode = 0x1A4\<rparr>,
     ''go.mod'' \<mapsto>
       \<lparr>content = ''go 1.19 golang.org/x/net v0.30.0'', mode = 0x1A4\<rparr>)\<rparr>"


section \<open>Runes\<close>

text \<open>
  What the proofs need of the decoder: a byte below \<^verbatim>\<open>0x80\<close> is a rune of its own and so
  is a byte between \<^verbatim>\<open>0x80\<close> and \<^verbatim>\<open>0xBF\<close> met where a rune begins; the bytes of a longer rune
  behind its first are all in that range; and how a rune ends depends on the bytes that
  follow only up to the first of them below \<^verbatim>\<open>0x80\<close> (\<open>tail_size_cut\<close>). Hence the runes
  of a text that is cut before such a byte are the runes of the two parts
  (\<open>decode_append\<close>).
\<close>

declare decode.simps(2) [simp del]

lemma lead_ascii: "ascii c \<Longrightarrow> lead c = None"
  by (simp add: lead_def ascii_def)

lemma lead_cont: "between 0x80 0xBF c \<Longrightarrow> lead c = None"
  by (simp add: lead_def between_def)

lemma lead_range: "lead c = Some (sz, lo, hi) \<Longrightarrow> 0x80 \<le> lo \<and> hi \<le> 0xBF"
  by (auto simp: lead_def Let_def split: if_splits)

lemma tail_size_ascii: "ascii c \<Longrightarrow> tail_size c s = 0"
  by (simp add: tail_size_def lead_ascii)

lemma tail_size_cont: "between 0x80 0xBF c \<Longrightarrow> tail_size c s = 0"
  by (simp add: tail_size_def lead_cont)

lemma tail_size_le: "tail_size c s \<le> length s"
  by (auto simp: tail_size_def split: option.splits list.splits)

lemma between_mono: "between lo hi b \<Longrightarrow> 0x80 \<le> lo \<Longrightarrow> hi \<le> 0xBF \<Longrightarrow> between 0x80 0xBF b"
  by (simp add: between_def)

lemma between_not_ascii: "between lo hi b \<Longrightarrow> 0x80 \<le> lo \<Longrightarrow> \<not> ascii b"
  by (simp add: between_def ascii_def)

lemma tail_bytes: "b \<in> set (take (tail_size c s) s) \<Longrightarrow> between 0x80 0xBF b"
  by (auto simp: tail_size_def split: option.splits list.splits if_splits
        dest!: lead_range intro: between_mono)

lemma tail_size_cut: "tail_size c (takeWhile (\<lambda>b. \<not> ascii b) s) = tail_size c s"
  by (auto simp: tail_size_def split: option.splits list.splits if_splits
        dest!: lead_range dest: between_not_ascii)

lemma decode_ascii: "ascii c \<Longrightarrow> decode (c # s) = [c] # decode s"
  by (simp add: decode.simps tail_size_ascii)

lemma decode_cont: "between 0x80 0xBF c \<Longrightarrow> decode (c # s) = [c] # decode s"
  by (simp add: decode.simps tail_size_cont)

lemma concat_decode: "concat (decode s) = s"
  by (induction s rule: decode.induct) (auto simp: decode.simps)

lemma decode_Nil_iff: "decode s = [] \<longleftrightarrow> s = []"
  by (cases s) (auto simp: decode.simps)

lemma tail_size_append:
  assumes "y = [] \<or> ascii (hd y)"
  shows "tail_size c (x @ y) = tail_size c x"
proof -
  from assms have "takeWhile (\<lambda>b. \<not> ascii b) y = []" by (cases y) auto
  then have "takeWhile (\<lambda>b. \<not> ascii b) (x @ y) = takeWhile (\<lambda>b. \<not> ascii b) x"
    by (simp add: takeWhile_append) (metis takeWhile_eq_all_conv)
  then show ?thesis by (metis tail_size_cut)
qed

lemma decode_append:
  assumes "y = [] \<or> ascii (hd y)"
  shows "decode (x @ y) = decode x @ decode y"
proof (induction x rule: length_induct)
  case (1 x)
  show ?case
  proof (cases x)
    case Nil
    then show ?thesis by simp
  next
    case (Cons c t)
    let ?k = "tail_size c t"
    have k: "tail_size c (t @ y) = ?k" by (rule tail_size_append [OF assms])
    have le: "?k \<le> length t" by (rule tail_size_le)
    from 1 Cons have "decode (drop ?k t @ y) = decode (drop ?k t) @ decode y" by simp
    with k le Cons show ?thesis by (simp add: decode.simps)
  qed
qed

lemma decode_ascii_text: "list_all ascii u \<Longrightarrow> decode (u @ y) = map (\<lambda>c. [c]) u @ decode y"
  by (induction u) (auto simp: decode_ascii)

lemma decode_snoc:
  assumes "ascii a"
  shows "decode (x @ [a]) = decode x @ [[a]]"
  using decode_append [of "[a]" x] assms by (simp add: decode_ascii)

lemma decode_line_start:
  assumes "pre = [] \<or> ascii (last pre)"
  shows "decode (pre @ y) = decode pre @ decode y"
proof (cases "pre = []")
  case True
  then show ?thesis by simp
next
  case False
  with assms have a: "ascii (last pre)" by simp
  from False have p: "pre = butlast pre @ [last pre]" by simp
  have "decode (pre @ y) = decode (butlast pre @ (last pre # y))" by (subst p) simp
  also have "\<dots> = decode (butlast pre) @ decode (last pre # y)" using a by (intro decode_append) simp
  also have "\<dots> = (decode (butlast pre) @ [[last pre]]) @ decode y" using a by (simp add: decode_ascii)
  also have "decode (butlast pre) @ [[last pre]] = decode pre"
    using decode_snoc [OF a, of "butlast pre"] p by simp
  finally show ?thesis .
qed

lemma set_decode: "r \<in> set (decode s) \<Longrightarrow> r \<noteq> [] \<and> set r \<subseteq> set s"
proof -
  assume r: "r \<in> set (decode s)"
  have "[] \<notin> set (decode s)" by (induction s rule: decode.induct) (auto simp: decode.simps)
  moreover from r have "set r \<subseteq> set (concat (decode s))" by auto
  ultimately show ?thesis using r by (auto simp: concat_decode)
qed

text \<open>Runes that are the runes of their bytes.\<close>

lemma aligned_decode: "aligned (decode s)"
  by (simp add: aligned_def concat_decode)

lemma aligned_Nil: "aligned []"
  by (simp add: aligned_def)

lemma aligned_ConsD:
  assumes "aligned (r # L)"
  shows "aligned L"
    and "\<exists>c t. r = c # t \<and> tail_size c (t @ concat L) = length t"
proof -
  from assms have d: "decode (r @ concat L) = r # L" by (simp add: aligned_def)
  then have "r @ concat L \<noteq> []" by (metis decode.simps(1) list.distinct(1))
  then obtain c s where cs: "r @ concat L = c # s" by (cases "r @ concat L") auto
  let ?k = "tail_size c s"
  from d cs have r: "r = c # take ?k s" and L: "L = decode (drop ?k s)"
    by (simp_all add: decode.simps)
  from L show "aligned L" by (simp add: aligned_decode)
  from r cs have s: "s = take ?k s @ concat L" by simp
  have "length (take ?k s) = ?k" using tail_size_le [of c s] by simp
  with s r show "\<exists>c t. r = c # t \<and> tail_size c (t @ concat L) = length t" by metis
qed

lemma aligned_suffix: "aligned (X @ Y) \<Longrightarrow> aligned Y"
  by (induction X) (auto dest: aligned_ConsD(1))

lemma aligned_ascii: "ascii a \<Longrightarrow> aligned L \<Longrightarrow> aligned ([a] # L)"
  by (simp add: aligned_def decode_ascii)

lemma aligned_swap:
  assumes "aligned (r # L)" and "aligned L'"
    and "takeWhile (\<lambda>b. \<not> ascii b) (concat L') = takeWhile (\<lambda>b. \<not> ascii b) (concat L)"
  shows "aligned (r # L')"
proof -
  from aligned_ConsD(2) [OF assms(1)] obtain c t where r: "r = c # t"
    and k: "tail_size c (t @ concat L) = length t" by blast
  have "takeWhile (\<lambda>b. \<not> ascii b) (t @ concat L') = takeWhile (\<lambda>b. \<not> ascii b) (t @ concat L)"
    using assms(3) by (simp add: takeWhile_append)
  then have "tail_size c (t @ concat L') = tail_size c (t @ concat L)" by (metis tail_size_cut)
  with k have "tail_size c (t @ concat L') = length t" by simp
  with assms(2) show ?thesis by (simp add: aligned_def r decode.simps)
qed


section \<open>The loop of \<open>replaceImages\<close>\<close>

text \<open>
  One passage of the loop either stops the run with an error (\<open>replaceImages_Cons_fail\<close>)
  or is a \<open>visit\<close> (\<open>replaceImages_Cons_ok\<close>); faults, store and modes never change, the
  journal only grows, and a path that is not visited keeps its file.
\<close>

lemmas table_defs = imageSubstitutions_def re_kube_rbac_proxy_def re_ansible_def re_helm_def
  re_distroless_def re_golang_def re_ubi_micro_def re_x_net_def re_go_version_def lit_def dot_def
  tag_def ocpProductVersion_def ubiMinimalVersion_def

lemmas io_defs = ReadFile_def Stat_def WriteFile_def EncodePluginConfig_def Let_def



lemma replaceImages_Cons_ok:
  "io_ok w p \<Longrightarrow> replaceImages ((p, ss) # rest) w = replaceImages rest (visit p ss w)"
  by (auto simp: io_ok_def visit_def ReadFile_def Stat_def WriteFile_def Let_def)

lemma replaceImages_Cons_fail:
  assumes "\<not> io_ok w p"
  shows "\<exists>err evs. replaceImages ((p, ss) # rest) w = (Some err, w\<lparr>journal := journal w @ evs\<rparr>)
           \<and> ((\<exists>e. fst (ReadFile p w) = Inl e \<and> evs = [EvReadFile p]
                  \<and> err = Errorf ''error reading file for substitution: '' e)
              \<or> (\<exists>e. fst (Stat p w) = Inl e \<and> evs = [EvReadFile p, EvStat p]
                  \<and> err = Errorf ''error reading file info for substitution: '' e)
              \<or> (\<exists>f. files w p = Some f \<and> write_fault w p = Some err
                  \<and> evs = [EvReadFile p, EvStat p,
                        EvWriteFile p (apply_substitutions ss (content f)) (mode f)]))"
  using assms
  by (auto simp: io_ok_def ReadFile_def Stat_def WriteFile_def Let_def split: option.splits)

lemma visit_static:
  "read_fault (visit p ss w) = read_fault w" "stat_fault (visit p ss w) = stat_fault w"
  "write_fault (visit p ss w) = write_fault w" "config (visit p ss w) = config w"
  by (auto simp: visit_def split: option.splits)

lemma visit_mode: "map_option mode (files (visit p ss w) q) = map_option mode (files w q)"
  by (auto simp: visit_def split: option.splits)

lemma visit_other: "q \<noteq> p \<Longrightarrow> files (visit p ss w) q = files w q"
  by (auto simp: visit_def split: option.splits)

lemma visit_same:
  "files w p = Some f \<Longrightarrow>
   files (visit p ss w) p = Some \<lparr>content = apply_substitutions ss (content f), mode = mode f\<rparr>"
  by (auto simp: visit_def)

lemma visit_journal:
  "files w p = Some f \<Longrightarrow>
   journal (visit p ss w) = journal w @ [EvReadFile p, EvStat p,
       EvWriteFile p (apply_substitutions ss (content f)) (mode f)]"
  by (auto simp: visit_def)

lemma visit_io_ok: "io_ok (visit p ss w) q = io_ok w q"
  by (auto simp: io_ok_def visit_def split: option.splits)

text \<open>An induction scheme: a property that holds where the loop stops, and goes through a visit.\<close>

lemma replaceImages_induct [consumes 1, case_names stop fail visit]:
  assumes run: "replaceImages es w = (r, w')"
    and stop: "\<And>w. P [] w None w"
    and fail: "\<And>p ss rest w err w'. \<not> io_ok w p \<Longrightarrow> replaceImages ((p, ss) # rest) w = (Some err, w')
                 \<Longrightarrow> P ((p, ss) # rest) w (Some err) w'"
    and visit: "\<And>p ss rest w r w'. io_ok w p \<Longrightarrow> replaceImages rest (visit p ss w) = (r, w')
                 \<Longrightarrow> P rest (visit p ss w) r w' \<Longrightarrow> P ((p, ss) # rest) w r w'"
  shows "P es w r w'"
  using run
proof (induction es arbitrary: w)
  case Nil
  then show ?case using stop by simp
next
  case (Cons e es)
  obtain p ss where e: "e = (p, ss)" by (cases e)
  show ?case
  proof (cases "io_ok w p")
    case True
    with Cons.prems have "replaceImages es (visit p ss w) = (r, w')"
      by (simp add: e replaceImages_Cons_ok del: replaceImages.simps)
    with Cons.IH True show ?thesis unfolding e by (intro visit) auto
  next
    case False
    from replaceImages_Cons_fail [OF False, of ss es] Cons.prems
    obtain err where "r = Some err" unfolding e by auto
    with False Cons.prems show ?thesis unfolding e using fail [of w p ss es err w'] by simp
  qed
qed

lemma replaceImages_static:
  "replaceImages es w = (r, w') \<Longrightarrow>
     read_fault w' = read_fault w \<and> stat_fault w' = stat_fault w \<and> write_fault w' = write_fault w
     \<and> config w' = config w"
proof (induction rule: replaceImages_induct)
  case (fail p ss rest w err w')
  from replaceImages_Cons_fail [OF fail(1), of ss rest] fail(2) show ?case by auto
qed (simp_all add: visit_static)

lemma replaceImages_mode:
  "replaceImages es w = (r, w') \<Longrightarrow> map_option mode (files w' q) = map_option mode (files w q)"
proof (induction rule: replaceImages_induct)
  case (fail p ss rest w err w')
  from replaceImages_Cons_fail [OF fail(1), of ss rest] fail(2) show ?case by auto
qed (simp_all add: visit_mode)

lemma replaceImages_frame:
  "replaceImages es w = (r, w') \<Longrightarrow> q \<notin> fst ` set es \<Longrightarrow> files w' q = files w q"
proof (induction rule: replaceImages_induct)
  case (fail p ss rest w err w')
  from replaceImages_Cons_fail [OF fail(1), of ss rest] fail(2) show ?case by auto
next
  case (visit p ss rest w r w')
  then show ?case by (auto simp: visit_other)
qed simp

lemma replaceImages_success_iff:
  "fst (replaceImages es w) = None \<longleftrightarrow> (\<forall>p\<in>fst ` set es. io_ok w p)"
proof (induction es arbitrary: w)
  case Nil
  then show ?case by simp
next
  case (Cons e es)
  obtain p ss where e: "e = (p, ss)" by (cases e)
  show ?case
  proof (cases "io_ok w p")
    case True
    then show ?thesis using Cons.IH [of "visit p ss w"]
      by (simp add: e replaceImages_Cons_ok visit_io_ok del: replaceImages.simps)
  next
    case False
    from replaceImages_Cons_fail [OF False, of ss es] False show ?thesis unfolding e by auto
  qed
qed

lemma replaceImages_journal:
  "replaceImages es w = (r, w') \<Longrightarrow>
   \<exists>evs. journal w' = journal w @ evs
      \<and> (\<forall>ev\<in>set evs. \<exists>p\<in>fst ` set es. event_path ev = Some p)
      \<and> (\<forall>p b m. EvWriteFile p b m \<in> set evs \<longrightarrow> map_option mode (files w p) = Some m)"
proof (induction rule: replaceImages_induct)
  case (stop w)
  then show ?case by simp
next
  case (fail p ss rest w err w')
  from replaceImages_Cons_fail [OF fail(1), of ss rest] fail(2) show ?case
    by (elim exE conjE disjE) auto
next
  case (visit p ss rest w r w')
  from visit(1) obtain f where f: "files w p = Some f" by (auto simp: io_ok_def)
  from visit(3) obtain evs where evs: "journal w' = journal (visit p ss w) @ evs"
      "\<forall>ev\<in>set evs. \<exists>p\<in>fst ` set rest. event_path ev = Some p"
      "\<forall>q b m. EvWriteFile q b m \<in> set evs \<longrightarrow> map_option mode (files (visit p ss w) q) = Some m"
    by blast
  let ?evs = "[EvReadFile p, EvStat p, EvWriteFile p (apply_substitutions ss (content f)) (mode f)] @ evs"
  have "journal w' = journal w @ ?evs" using evs(1) by (simp add: visit_journal [OF f])
  moreover have "\<forall>ev\<in>set ?evs. \<exists>p\<in>fst ` set ((p, ss) # rest). event_path ev = Some p"
    using evs(2) by auto
  moreover have "\<forall>q b m. EvWriteFile q b m \<in> set ?evs \<longrightarrow> map_option mode (files w q) = Some m"
    using evs(3) f by (auto simp: visit_mode)
  ultimately show ?case by blast
qed


lemma replaceImages_content:
  "replaceImages es w = (r, w') \<Longrightarrow> r = None \<Longrightarrow> distinct (map fst es) \<Longrightarrow> (p, ss) \<in> set es \<Longrightarrow>
   files w p = Some f \<Longrightarrow>
   files w' p = Some \<lparr>content = apply_substitutions ss (content f), mode = mode f\<rparr>
   \<and> EvWriteFile p (apply_substitutions ss (content f)) (mode f) \<in> set (new_events w w')"
proof (induction arbitrary: f rule: replaceImages_induct)
  case (stop w)
  then show ?case by simp
next
  case (fail q ss' rest w err w')
  then show ?case by simp
next
  case (visit q ss' rest w r w')
  from replaceImages_journal [OF visit(2)] obtain evs
    where evs: "journal w' = journal (visit q ss' w) @ evs" by blast
  from visit(1) obtain g where g: "files w q = Some g" by (auto simp: io_ok_def)
  show ?case
  proof (cases "(p, ss) = (q, ss')")
    case True
    with visit.prems have "p \<notin> fst ` set rest" by auto
    from replaceImages_frame [OF visit(2) this] True visit.prems g show ?thesis
      by (auto simp: visit_same new_events_def evs visit_journal)
  next
    case False
    with visit.prems have in_rest: "(p, ss) \<in> set rest" and ne: "p \<noteq> q"
      by (auto simp: rev_image_eqI)
    from visit.prems ne have "files (visit q ss' w) p = Some f" by (simp add: visit_other)
    from visit.IH [OF visit.prems(1) _ in_rest this] visit.prems(2)
    show ?thesis by (auto simp: new_events_def evs visit_journal [OF g])
  qed
qed

lemma keys: "fst ` set imageSubstitutions = {''config/default/manager_auth_proxy_patch.yaml'', ''Dockerfile'', ''go.mod''}"
  by (simp add: imageSubstitutions_def)

lemma range_order_keys: "range_order order \<Longrightarrow> fst ` set order = fst ` set imageSubstitutions"
  by (simp add: range_order_def)

lemma range_order_distinct: "range_order order \<Longrightarrow> distinct (map fst order)"
proof -
  assume ro: "range_order order"
  have "inj_on fst (set imageSubstitutions)"
    by (simp add: imageSubstitutions_def)
  with ro show ?thesis by (simp add: range_order_def distinct_map)
qed

lemma range_order_table: "range_order imageSubstitutions"
  by (simp add: range_order_def imageSubstitutions_def)

lemma example_succeeds: "fst (replaceImages imageSubstitutions example_world) = None"
  by (simp add: replaceImages_success_iff keys io_ok_def example_world_def example_files_def)

lemma ReadFile_visit:
  "(fst (ReadFile p (visit q ss w)) = Inl e) = (fst (ReadFile p w) = Inl e)"
  by (auto simp: ReadFile_def visit_def Let_def split: option.splits)

lemma Stat_visit:
  "(fst (Stat p (visit q ss w)) = Inl e) = (fst (Stat p w) = Inl e)"
  by (auto simp: Stat_def visit_def Let_def split: option.splits)

lemma replaceImages_failure:
  "replaceImages es w = (r, w') \<Longrightarrow> r = Some err \<Longrightarrow>
   \<exists>p\<in>fst ` set es.
     (\<exists>e. fst (ReadFile p w) = Inl e \<and> err = Errorf ''error reading file for substitution: '' e
          \<and> last (journal w') = EvReadFile p)
     \<or> (\<exists>e. fst (Stat p w) = Inl e \<and> err = Errorf ''error reading file info for substitution: '' e
          \<and> last (journal w') = EvStat p)
     \<or> (write_fault w p = Some err \<and> is_write (last (journal w')))"
proof (induction rule: replaceImages_induct)
  case (stop w)
  then show ?case by simp
next
  case (fail p ss rest w err' w')
  from replaceImages_Cons_fail [OF fail(1), of ss rest] fail(2,3) show ?case
    by (elim exE conjE disjE) auto
next
  case (visit p ss rest w r w')
  from visit.IH [OF visit.prems] show ?case
    by (auto simp: ReadFile_visit Stat_visit visit_static)
qed


lemma missing_fails:
  "replaceImages imageSubstitutions missing_world =
     (Some (errorString ''error reading file for substitution: open go.mod: file does not exist''),
      snd (replaceImages imageSubstitutions missing_world))"
  by (simp add: table_defs io_defs missing_world_def example_world_def example_files_def
        Errorf_def ErrNotExist_def)



section \<open>Patterns of the table: one run of literals and a greedy class\<close>

text \<open>
  For a pattern of the shape \<open>rx A\<close> the matcher needs no backtracking: \<open>match_here\<close> is
  decided by \<open>starts\<close>, and the scan either copies a rune or puts the replacement
  and goes on at \<open>after\<close> (\<open>RA_Cons\<close>). On this the section builds the two facts behind
  idempotence: the result of a replacement is stable for its own rule (\<open>stable_self\<close>),
  and a replacement by a later rule keeps a text stable for an earlier one
  (\<open>stable_other\<close>), both under conditions that are computed from the rules alone.
  A text that is stable for a rule is a fixed point of it (\<open>RA_fixed\<close>).
\<close>

lemma replaceAll_no_match: "\<not> match_in re b \<Longrightarrow> replaceAll re b repl = b"
  by (induction b) (auto split: option.splits nat.splits)

lemma ReplaceAll_no_match: "\<not> has_match re b \<Longrightarrow> ReplaceAll re b repl = b"
  by (simp add: has_match_def ReplaceAll_def replaceAll_no_match concat_decode)

lemma atoms_of_rx: "atoms_of re = Some A \<Longrightarrow> re = rx A \<and> A \<noteq> []"
proof (induction re arbitrary: A rule: atoms_of.induct)
  case (4 a r)
  then obtain B where B: "atoms_of r = Some B" "A = a # B" by auto
  with 4 have "r = rx B" "B \<noteq> []" by auto
  with B show ?case by (simp add: rx_def)
qed (auto simp: rx_def)

lemma match_here_Plus_Cons:
  "match_here [Plus a] (c # s) =
     (if atom_matches a c then Some (Suc (length (takeWhile (atom_matches a) s))) else None)"
  by (induction s arbitrary: c) auto

lemma match_here_rx:
  "A \<noteq> [] \<Longrightarrow> match_here (rx A) s =
     (if starts A s then Some (length A - 1 + length (takeWhile (atom_matches (last A)) (drop (length A - 1) s)))
      else None)"
proof (induction A arbitrary: s)
  case Nil
  then show ?case by simp
next
  case (Cons a A)
  show ?case
  proof (cases "A = []")
    case True
    then show ?thesis
      by (cases s) (simp_all add: rx_def match_here_Plus_Cons del: match_here.simps(5))
  next
    case False
    then have rx: "rx (a # A) = One a # rx A" by (simp add: rx_def)
    from False obtain k where len: "length A = Suc k" by (cases A) auto
    show ?thesis
    proof (cases s)
      case Nil
      then show ?thesis by (simp add: rx)
    next
      case (Cons c t)
      with False Cons.IH [OF False, of t] len show ?thesis
        by (auto simp: rx)
    qed
  qed
qed

lemma starts_length: "starts A s \<Longrightarrow> length A \<le> length s"
  by (induction A s rule: starts.induct) auto

lemma starts_takeWhile:
  "A \<noteq> [] \<Longrightarrow> starts A s \<Longrightarrow> takeWhile (atom_matches (last A)) (drop (length A - 1) s) \<noteq> []"
proof (induction A s rule: starts.induct)
  case (3 a A c s)
  then show ?case by (cases "A = []") (auto simp: Suc_diff_Suc neq_Nil_conv)
qed auto

lemma RA_Nil [simp]: "RA A repl [] = []"
  by (simp add: RA_def)

lemma RA_Cons:
  assumes "A \<noteq> []"
  shows "RA A repl (c # s) =
     (if starts A (c # s) then repl @ RA A repl (after A (c # s)) else c # RA A repl s)"
proof (cases "starts A (c # s)")
  case False
  with assms show ?thesis by (simp add: RA_def match_here_rx)
next
  case True
  let ?tw = "takeWhile (atom_matches (last A)) (drop (length A - 1) (c # s))"
  from starts_takeWhile [OF assms True] have "length ?tw \<noteq> 0" by simp
  then obtain n where n: "length A - 1 + length ?tw = Suc n" by (cases "length ?tw") auto
  have "drop n s = drop (Suc n) (c # s)" by simp
  also have "\<dots> = drop (length ?tw) (drop (length A - 1) (c # s))"
    by (simp only: n [symmetric] drop_drop add.commute)
  also have "\<dots> = after A (c # s)"
    by (simp add: after_def dropWhile_eq_drop)
  finally have "drop n s = after A (c # s)" .
  with True assms n show ?thesis by (simp add: RA_def match_here_rx)
qed

lemma after_shorter: "A \<noteq> [] \<Longrightarrow> starts A s \<Longrightarrow> length (after A s) < length s"
proof -
  assume A: "A \<noteq> []" and s: "starts A s"
  let ?d = "drop (length A - 1) s"
  from starts_takeWhile [OF A s] have "?d \<noteq> []" by auto
  moreover from starts_takeWhile [OF A s] have "length (dropWhile (atom_matches (last A)) ?d) < length ?d"
    by (metis append_self_conv2 length_append less_add_same_cancel2 length_greater_0_conv takeWhile_dropWhile_id)
  ultimately show ?thesis by (simp add: after_def)
qed

lemma after_delim: "after A s = [] \<or> \<not> atom_matches (last A) (hd (after A s))"
  unfolding after_def by (metis hd_dropWhile)

lemma suffix_after: "suffix (after A s) s"
  unfolding after_def by (meson suffix_drop suffix_dropWhile suffix_order.trans)


lemma refutes_sound: "refutes A s \<Longrightarrow> \<not> starts A (s @ w)"
  by (induction A s rule: refutes.induct) auto

lemma accepts_all_sound: "accepts_all a b \<Longrightarrow> atom_matches b c \<Longrightarrow> atom_matches a c"
  by (cases b) auto

lemma covers_sound: "covers A B \<Longrightarrow> starts B x \<Longrightarrow> starts A x"
proof (induction A B arbitrary: x rule: covers.induct)
  case (3 a A b B)
  then show ?case by (cases x) (auto dest: accepts_all_sound)
qed auto

lemma starts_split:
  "starts (take i A) t \<Longrightarrow> starts (drop i A) (drop i t) \<Longrightarrow> starts A t"
proof (induction A t arbitrary: i rule: starts.induct)
  case (1 s)
  then show ?case by simp
next
  case (2 a A)
  then show ?case by (cases i) auto
next
  case (3 a A c s)
  then show ?case by (cases i) auto
qed

lemma self_match_after:
  assumes "A \<noteq> []" "self_match A repl" "w = [] \<or> \<not> atom_matches (last A) (hd w)"
  shows "after A (repl @ w) = w"
proof -
  from assms(2) have len: "length A \<le> length repl" and
    all: "\<forall>c\<in>set (drop (length A - 1) repl). atom_matches (last A) c"
    by (auto simp: self_match_def starts_length list_all_iff)
  from len have "drop (length A - 1) (repl @ w) = drop (length A - 1) repl @ w" by simp
  moreover from assms(3) have "dropWhile (atom_matches (last A)) w = w"
    by (simp add: dropWhile_eq_self_iff)
  ultimately show ?thesis using all by (simp add: after_def dropWhile_append)
qed

lemma no_start_delim:
  assumes "covers [cls] A" "w = [] \<or> \<not> atom_matches cls (hd w)"
  shows "\<not> starts A w"
proof
  assume "starts A w"
  with assms(1) have "starts [cls] w" by (rule covers_sound)
  with assms(2) show False by (cases w) auto
qed

lemma RA_delim:
  assumes "A \<noteq> []" "\<not> starts A w" "w = [] \<or> \<not> P (hd w)"
  shows "RA A repl w = [] \<or> \<not> P (hd (RA A repl w))"
  using assms by (cases w) (auto simp: RA_Cons)

lemma RA_starts:
  "A \<noteq> [] \<Longrightarrow> starts A t \<Longrightarrow> RA A repl t = repl @ RA A repl (after A t)"
  by (cases t; cases A) (auto simp: RA_Cons)

lemma RA_fixed: "A \<noteq> [] \<Longrightarrow> stable A repl y \<Longrightarrow> RA A repl y = y"
proof (induction y rule: length_induct)
  case (1 y)
  show ?case
  proof (cases y)
    case Nil
    then show ?thesis by simp
  next
    case (Cons c s)
    show ?thesis
    proof (cases "starts A y")
      case True
      from 1(3) have "good A repl y" by (simp add: stable_def)
      with True have p: "prefix repl y" and a: "after A y = drop (length repl) y"
        by (auto simp: good_def)
      have "stable A repl (after A y)"
        using 1(3) suffix_after [of A y] unfolding stable_def
        by (meson suffix_order.trans)
      with 1 after_shorter [OF 1(2) True] have "RA A repl (after A y) = after A y" by blast
      with True 1(2) have "RA A repl y = repl @ after A y" by (simp add: RA_starts)
      also from p a have "\<dots> = y" by (metis append_take_drop_id prefix_def append_eq_conv_conj)
      finally show ?thesis .
    next
      case False
      have "stable A repl s" using 1(3) Cons unfolding stable_def
        by (meson suffix_ConsI)
      with 1 Cons have "RA A repl s = s" by simp
      with False Cons 1(2) show ?thesis by (simp add: RA_Cons)
    qed
  qed
qed

lemma look:
  assumes "A \<noteq> []"
  shows "starts B (RA A repl s) \<Longrightarrow>
     starts B s \<or>
     (\<exists>i<length B. starts (take i B) s \<and> starts A (drop i s) \<and> (\<forall>j<i. \<not> starts A (drop j s))
        \<and> starts (drop i B) (repl @ RA A repl (after A (drop i s))))"
proof (induction B arbitrary: s)
  case Nil
  then show ?case by simp
next
  case (Cons b B)
  show ?case
  proof (cases s)
    case Nil
    with Cons.prems show ?thesis by simp
  next
    case s: (Cons c t)
    show ?thesis
    proof (cases "starts A s")
      case True
      with Cons.prems assms have "starts (b # B) (repl @ RA A repl (after A s))"
        by (simp add: RA_starts)
      with True have "0 < length (b # B) \<and> starts (take 0 (b # B)) s \<and> starts A (drop 0 s)
          \<and> (\<forall>j<0. \<not> starts A (drop j s))
          \<and> starts (drop 0 (b # B)) (repl @ RA A repl (after A (drop 0 s)))" by simp
      then show ?thesis by blast
    next
      case False
      with Cons.prems assms s have bc: "atom_matches b c" and B: "starts B (RA A repl t)"
        by (auto simp: RA_Cons)
      from Cons.IH [OF B] show ?thesis
      proof
        assume "starts B t"
        with bc s show ?thesis by simp
      next
        assume "\<exists>i<length B. starts (take i B) t \<and> starts A (drop i t) \<and> (\<forall>j<i. \<not> starts A (drop j t))
           \<and> starts (drop i B) (repl @ RA A repl (after A (drop i t)))"
        then obtain i where i: "i < length B" "starts (take i B) t" "starts A (drop i t)"
          "\<forall>j<i. \<not> starts A (drop j t)"
          "starts (drop i B) (repl @ RA A repl (after A (drop i t)))" by blast
        have "\<forall>j<Suc i. \<not> starts A (drop j s)"
        proof (intro allI impI)
          fix j assume "j < Suc i"
          then show "\<not> starts A (drop j s)" using False i(4) s by (cases j) auto
        qed
        with i bc s have "Suc i < length (b # B) \<and> starts (take (Suc i) (b # B)) s
          \<and> starts A (drop (Suc i) s) \<and> (\<forall>j<Suc i. \<not> starts A (drop j s))
          \<and> starts (drop (Suc i) (b # B)) (repl @ RA A repl (after A (drop (Suc i) s)))" by simp
        then show ?thesis by blast
      qed
    qed
  qed
qed

lemma suffix_cases:
  assumes "A \<noteq> []"
  shows "suffix t' (RA A repl z) \<Longrightarrow>
     (\<exists>t. suffix t z \<and> t' = RA A repl t) \<or>
     (\<exists>t sfx. suffix t z \<and> starts A t \<and> suffix sfx repl \<and> sfx \<noteq> [] \<and> t' = sfx @ RA A repl (after A t))"
proof (induction z rule: length_induct)
  case (1 z)
  show ?case
  proof (cases z)
    case Nil
    with 1(2) show ?thesis by auto
  next
    case (Cons c s)
    show ?thesis
    proof (cases "starts A z")
      case True
      with assms have eq: "RA A repl z = repl @ RA A repl (after A z)" by (simp add: RA_starts)
      from 1(2) [unfolded eq suffix_append] show ?thesis
      proof
        assume "suffix t' (RA A repl (after A z))"
        with 1(1) after_shorter [OF assms True]
        have "(\<exists>t. suffix t (after A z) \<and> t' = RA A repl t) \<or>
          (\<exists>t sfx. suffix t (after A z) \<and> starts A t \<and> suffix sfx repl \<and> sfx \<noteq> []
             \<and> t' = sfx @ RA A repl (after A t))" by blast
        moreover have "suffix t (after A z) \<Longrightarrow> suffix t z" for t
          using suffix_after [of A z] by (rule suffix_order.trans [rotated])
        ultimately show ?thesis by blast
      next
        assume "\<exists>xs'. t' = xs' @ RA A repl (after A z) \<and> suffix xs' repl"
        then obtain xs where xs: "t' = xs @ RA A repl (after A z)" "suffix xs repl" by blast
        show ?thesis
        proof (cases "xs = []")
          case True
          with xs have "suffix (after A z) z \<and> t' = RA A repl (after A z)"
            by (simp add: suffix_after)
          then show ?thesis by blast
        next
          case False
          with xs \<open>starts A z\<close> show ?thesis by blast
        qed
      qed
    next
      case False
      with assms Cons have eq: "RA A repl z = c # RA A repl s" by (simp add: RA_Cons)
      from 1(2) [unfolded eq suffix_Cons] show ?thesis
      proof
        assume "t' = c # RA A repl s"
        with eq show ?thesis by auto
      next
        assume "suffix t' (RA A repl s)"
        with 1(1) Cons have "(\<exists>t. suffix t s \<and> t' = RA A repl t) \<or>
          (\<exists>t sfx. suffix t s \<and> starts A t \<and> suffix sfx repl \<and> sfx \<noteq> []
             \<and> t' = sfx @ RA A repl (after A t))" by simp
        moreover have "suffix t s \<Longrightarrow> suffix t z" for t
          using Cons by (simp add: suffix_ConsI)
        ultimately show ?thesis by blast
      qed
    qed
  qed
qed


lemma good_in_repl:
  assumes ok: "self_ok A r" and t: "starts A t" and sfx: "suffix sfx r" "sfx \<noteq> []"
  shows "good A r (sfx @ RA A r (after A t))"
proof -
  from ok have A: "A \<noteq> []" by (simp add: self_ok_def)
  from ok sfx have "refutes A sfx \<or> (sfx = r \<and> self_match A r \<and> covers [last A] A)"
    by (auto simp: self_ok_def list_all_iff)
  then show ?thesis
  proof
    assume "refutes A sfx"
    then show ?thesis by (simp add: good_def refutes_sound)
  next
    assume sm: "sfx = r \<and> self_match A r \<and> covers [last A] A"
    let ?w = "RA A r (after A t)"
    from sm after_delim [of A t] have "\<not> starts A (after A t)" by (intro no_start_delim) auto
    from RA_delim [where P = "atom_matches (last A)", OF A this after_delim]
    have "?w = [] \<or> \<not> atom_matches (last A) (hd ?w)" .
    with sm A have "after A (r @ ?w) = ?w" by (intro self_match_after) auto
    with sm show ?thesis by (simp add: good_def)
  qed
qed

lemma stable_self:
  assumes ok: "self_ok A r"
  shows "stable A r (RA A r z)"
  unfolding stable_def
proof (intro allI impI)
  fix t' assume "suffix t' (RA A r z)"
  from ok have A: "A \<noteq> []" and r: "r \<noteq> []" by (simp_all add: self_ok_def)
  from suffix_cases [OF A \<open>suffix t' (RA A r z)\<close>] show "good A r t'"
  proof (elim disjE exE conjE)
    fix t sfx assume "starts A t" "suffix sfx r" "sfx \<noteq> []" "t' = sfx @ RA A r (after A t)"
    with ok show ?thesis by (simp add: good_in_repl)
  next
    fix t assume t: "t' = RA A r t"
    have at_start: "starts A t \<Longrightarrow> good A r (RA A r t)"
    proof -
      assume st: "starts A t"
      from good_in_repl [OF ok st suffix_order.refl r] st A show ?thesis by (simp add: RA_starts)
    qed
    show ?thesis unfolding t good_def
    proof (intro impI)
      assume "starts A (RA A r t)"
      from look [OF A this] have "starts A t"
      proof (elim disjE exE conjE)
        fix i assume i: "i < length A" "starts (take i A) t" "starts A (drop i t)"
          "\<forall>j<i. \<not> starts A (drop j t)" "starts (drop i A) (r @ RA A r (after A (drop i t)))"
        show ?thesis
        proof (cases i)
          case 0
          with i(3) show ?thesis by simp
        next
          case (Suc k)
          with i(1) ok have "refutes (drop i A) r \<or> covers (drop i A) A"
            by (auto simp: self_ok_def list_all_iff)
          then show ?thesis
          proof
            assume "refutes (drop i A) r"
            with i(5) show ?thesis by (simp add: refutes_sound)
          next
            assume "covers (drop i A) A"
            from covers_sound [OF this i(3)] i(2) show ?thesis by (rule starts_split [rotated])
          qed
        qed
      qed
      from at_start [OF this] \<open>starts A (RA A r t)\<close>
      show "prefix r (RA A r t) \<and> after A (RA A r t) = drop (length r) (RA A r t)"
        by (simp add: good_def)
    qed
  qed
qed

lemma RA_skip:
  assumes "A \<noteq> []" "\<forall>sfx. suffix sfx u \<and> sfx \<noteq> [] \<longrightarrow> refutes A sfx"
  shows "RA A r (u @ w) = u @ RA A r w"
  using assms(2)
proof (induction u)
  case Nil
  then show ?case by simp
next
  case (Cons c u)
  then have "refutes A (c # u)" by simp
  then have "\<not> starts A ((c # u) @ w)" by (rule refutes_sound)
  moreover have "\<forall>sfx. suffix sfx u \<and> sfx \<noteq> [] \<longrightarrow> refutes A sfx"
    using Cons.prems by (simp add: suffix_ConsI)
  ultimately show ?case using Cons.IH assms(1) by (simp add: RA_Cons)
qed

lemma stable_other:
  assumes A: "A \<noteq> []" and B: "B \<noteq> []" and ra: "ra \<noteq> []"
    and ok: "pair_ok B rb A ra" and st: "stable B rb z"
  shows "stable B rb (RA A ra z)"
  unfolding stable_def
proof (intro allI impI)
  fix t' assume sf: "suffix t' (RA A ra z)"
  from ok have cB: "\<And>sfx. suffix sfx ra \<Longrightarrow> sfx \<noteq> [] \<Longrightarrow> refutes B sfx"
    and cA: "\<And>i. 1 \<le> i \<Longrightarrow> i < length B \<Longrightarrow> refutes (drop i B) ra \<or> covers (drop i B) A"
    and cC: "\<And>sfx. suffix sfx rb \<Longrightarrow> sfx \<noteq> [] \<Longrightarrow> refutes A sfx"
    and self: "refutes B rb \<or> self_match B rb" and X1: "covers [last B] A"
    by (auto simp: pair_ok_def list_all_iff)
  from suffix_cases [OF A sf] show "good B rb t'"
  proof (elim disjE exE conjE)
    fix t sfx assume "suffix sfx ra" "sfx \<noteq> []" "t' = sfx @ RA A ra (after A t)"
    with cB show ?thesis by (simp add: good_def refutes_sound)
  next
    fix t assume tz: "suffix t z" and t: "t' = RA A ra t"
    show ?thesis unfolding t good_def
    proof (intro impI)
      assume sB: "starts B (RA A ra t)"
      have input: "starts B t \<and> (\<forall>i. 1 \<le> i \<and> i < length B \<longrightarrow> \<not> starts A (drop i t))
                   \<and> self_match B rb \<and> prefix rb t \<and> after B t = drop (length rb) t"
        if sBt: "starts B t"
      proof -
        from st tz sBt have p: "prefix rb t" and a: "after B t = drop (length rb) t"
          by (auto simp: stable_def good_def)
        then obtain rest where rest: "t = rb @ rest" by (auto simp: prefix_def)
        from sBt rest self have sm: "self_match B rb" by (auto simp: refutes_sound)
        then have len: "length B \<le> length rb" by (simp add: self_match_def starts_length)
        have "\<not> starts A (drop i t)" if i: "1 \<le> i" "i < length B" for i
        proof -
          from i len have "suffix (drop i rb) rb" "drop i rb \<noteq> []" by (simp_all add: suffix_drop)
          then have "refutes A (drop i rb)" by (rule cC)
          with i len rest show ?thesis by (simp add: refutes_sound)
        qed
        with sBt sm p a show ?thesis by blast
      qed
      from look [OF A sB] have "starts B t"
      proof (elim disjE exE conjE)
        fix i assume i: "i < length B" "starts (take i B) t" "starts A (drop i t)"
          "starts (drop i B) (ra @ RA A ra (after A (drop i t)))"
        show ?thesis
        proof (cases i)
          case 0
          from cB [OF suffix_order.refl ra] i(4) 0 show ?thesis by (simp add: refutes_sound)
        next
          case (Suc k)
          with i(1) cA [of i] have "refutes (drop i B) ra \<or> covers (drop i B) A" by simp
          then show ?thesis
          proof
            assume "refutes (drop i B) ra"
            with i(4) show ?thesis by (simp add: refutes_sound)
          next
            assume "covers (drop i B) A"
            from covers_sound [OF this i(3)] i(2) show ?thesis by (rule starts_split [rotated])
          qed
        qed
      qed
      from input [OF this] obtain rest where sm: "self_match B rb" and rest: "t = rb @ rest"
        and a: "after B t = rest"
        by (auto simp: prefix_def)
      from a after_delim [of B t] have d: "rest = [] \<or> \<not> atom_matches (last B) (hd rest)" by auto
      from X1 d have "\<not> starts A rest" by (rule no_start_delim)
      from RA_delim [where P = "atom_matches (last B)", OF A this d]
      have d': "RA A ra rest = [] \<or> \<not> atom_matches (last B) (hd (RA A ra rest))" .
      have eq: "RA A ra t = rb @ RA A ra rest" unfolding rest
        using A cC by (intro RA_skip) auto
      from self_match_after [OF B sm d'] have "after B (rb @ RA A ra rest) = RA A ra rest" .
      then show "prefix rb (RA A ra t) \<and> after B (RA A ra t) = drop (length rb) (RA A ra t)"
        by (simp add: eq)
    qed
  qed
qed


lemma applyR_preserves:
  "stable B rb z \<Longrightarrow> B \<noteq> [] \<Longrightarrow>
   list_all (\<lambda>(A, ra). A \<noteq> [] \<and> ra \<noteq> [] \<and> pair_ok B rb A ra) rs \<Longrightarrow> stable B rb (applyR rs z)"
proof (induction rs arbitrary: z)
  case Nil
  then show ?case by simp
next
  case (Cons a rs)
  obtain A ra where a: "a = (A, ra)" by (cases a)
  from Cons.prems a have "stable B rb (RA A ra z)" by (intro stable_other) auto
  with Cons show ?case by (simp add: a)
qed

lemma applyR_stable:
  "convergent rs \<Longrightarrow> (B, rb) \<in> set rs \<Longrightarrow> stable B rb (applyR rs x)"
proof (induction rs arbitrary: x)
  case Nil
  then show ?case by simp
next
  case (Cons a rs)
  obtain A ra where a: "a = (A, ra)" by (cases a)
  show ?case
  proof (cases "(B, rb) = a")
    case True
    with Cons.prems a have ok: "self_ok B rb"
      and rest: "list_all (\<lambda>(A, ra). A \<noteq> [] \<and> ra \<noteq> [] \<and> pair_ok B rb A ra) rs" by auto
    from ok have "B \<noteq> []" by (simp add: self_ok_def)
    from applyR_preserves [OF stable_self [OF ok] this rest] True a show ?thesis by simp
  next
    case False
    with Cons show ?thesis by (auto simp: a)
  qed
qed

lemma applyR_fixed:
  "\<forall>(B, rb)\<in>set rs. B \<noteq> [] \<and> stable B rb y \<Longrightarrow> applyR rs y = y"
  by (induction rs) (auto simp: RA_fixed)

lemma convergent_nonempty: "convergent rs \<Longrightarrow> (B, rb) \<in> set rs \<Longrightarrow> B \<noteq> []"
  by (induction rs) (auto simp: self_ok_def)

lemma applyR_idem:
  assumes "convergent rs"
  shows "applyR rs (applyR rs x) = applyR rs x"
proof -
  have "\<forall>(B, rb)\<in>set rs. B \<noteq> [] \<and> stable B rb (applyR rs x)"
    using assms applyR_stable convergent_nonempty by fastforce
  then show ?thesis by (rule applyR_fixed)
qed

lemma atoms_rx: "atoms re \<noteq> [] \<Longrightarrow> re = rx (atoms re)"
  by (auto simp: atoms_def dest: atoms_of_rx split: option.splits)

section \<open>From runes back to bytes\<close>

text \<open>
  \<^verbatim>\<open>replaceImages\<close> hands the bytes written by one \<^verbatim>\<open>ReplaceAll\<close> to the next, which decodes
  them afresh. For the rules of the table nothing is lost on the way: a match begins with
  a byte below \<^verbatim>\<open>0x80\<close> and is replaced by a text of such bytes, so the bytes of the result
  are cut into the very runes the scan has produced (\<open>RA_aligned\<close>). A rule list then
  acts on bytes as \<open>applyR\<close> acts on runes (\<open>apply_substitutions_applyR\<close>), and a
  convergent list applied to its own result changes nothing (\<open>convergent_idem\<close>).
\<close>

lemma plain_ruleE:
  assumes "plain_rule A R"
  obtains g A' a R' where "A = Lit g # A'" "ascii g" "R = [a] # R'" "ascii a"
    "list_all (\<lambda>x. length x = 1 \<and> ascii (hd x)) R'"
proof -
  from assms obtain b A' where A: "A = b # A'" by (cases A) (auto simp: plain_rule_def)
  with assms obtain g where g: "b = Lit g" "ascii g" by (cases b) (auto simp: plain_rule_def)
  from assms obtain x R' where R: "R = x # R'" by (cases R) (auto simp: plain_rule_def)
  with assms have x: "length x = 1" "ascii (hd x)"
    and R': "list_all (\<lambda>x. length x = 1 \<and> ascii (hd x)) R'" by (auto simp: plain_rule_def)
  from x obtain a where "x = [a]" "ascii a" by (cases x) auto
  with A g R R' that show ?thesis by blast
qed

lemma RA_cut:
  assumes "plain_rule A R"
  shows "takeWhile (\<lambda>b. \<not> ascii b) (concat (RA A R L)) = takeWhile (\<lambda>b. \<not> ascii b) (concat L)"
proof -
  from assms obtain g A' a R' where A: "A = Lit g # A'" "ascii g" and R: "R = [a] # R'" "ascii a"
    by (rule plain_ruleE)
  from A have ne: "A \<noteq> []" by simp
  show ?thesis
  proof (induction L)
    case Nil
    then show ?case by simp
  next
    case (Cons r L)
    show ?case
    proof (cases "starts A (r # L)")
      case True
      with A have "r = [g]" by simp
      with True A R ne show ?thesis by (simp add: RA_starts del: starts.simps)
    next
      case False
      with ne Cons show ?thesis by (simp add: RA_Cons takeWhile_append)
    qed
  qed
qed

lemma aligned_plain:
  "list_all (\<lambda>x. length x = 1 \<and> ascii (hd x)) R \<Longrightarrow> aligned L \<Longrightarrow> aligned (R @ L)"
proof (induction R)
  case Nil
  then show ?case by simp
next
  case (Cons x R)
  then obtain a where "x = [a]" "ascii a" by (cases x) auto
  with Cons show ?case by (simp add: aligned_ascii)
qed

lemma RA_aligned:
  assumes "plain_rule A R"
  shows "aligned L \<Longrightarrow> aligned (RA A R L)"
proof (induction L rule: length_induct)
  case (1 L)
  from assms have ne: "A \<noteq> []" and R: "list_all (\<lambda>x. length x = 1 \<and> ascii (hd x)) R"
    by (simp_all add: plain_rule_def)
  show ?case
  proof (cases L)
    case Nil
    then show ?thesis by (simp add: aligned_Nil)
  next
    case (Cons r L')
    show ?thesis
    proof (cases "starts A L")
      case True
      from suffix_after [of A L] obtain X where "L = X @ after A L" by (auto simp: suffix_def)
      with 1(2) have "aligned (after A L)" by (metis aligned_suffix)
      with 1(1) after_shorter [OF ne True] have "aligned (RA A R (after A L))" by blast
      with R have "aligned (R @ RA A R (after A L))" by (rule aligned_plain)
      with True ne show ?thesis by (simp add: RA_starts)
    next
      case False
      from 1(2) Cons have L': "aligned L'" by (auto dest: aligned_ConsD(1))
      with 1(1) Cons have "aligned (RA A R L')" by simp
      from aligned_swap [OF 1(2) [unfolded Cons] this RA_cut [OF assms]]
      show ?thesis using False Cons ne by (simp add: RA_Cons)
    qed
  qed
qed

lemma applyR_aligned: "plain rs \<Longrightarrow> aligned L \<Longrightarrow> aligned (applyR rs L)"
  by (induction rs arbitrary: L) (auto simp: plain_def RA_aligned)

lemma ReplaceAll_RA:
  "atoms re \<noteq> [] \<Longrightarrow> ReplaceAll re b r = concat (RA (atoms re) (decode r) (decode b))"
  using atoms_rx [of re] by (simp add: RA_def ReplaceAll_def)

lemma decode_ReplaceAll:
  assumes "plain_rule (atoms re) (decode r)"
  shows "decode (ReplaceAll re b r) = RA (atoms re) (decode r) (decode b)"
proof -
  from assms have "atoms re \<noteq> []" by (simp add: plain_rule_def)
  moreover have "aligned (RA (atoms re) (decode r) (decode b))"
    using assms aligned_decode by (rule RA_aligned)
  ultimately show ?thesis by (simp add: ReplaceAll_RA aligned_def)
qed

lemma decode_apply_substitutions:
  "plain (rules ss) \<Longrightarrow> decode (apply_substitutions ss b) = applyR (rules ss) (decode b)"
proof (induction ss arbitrary: b)
  case Nil
  then show ?case by (simp add: rules_def)
next
  case (Cons s ss)
  then have "plain_rule (atoms (fromTagRE s)) (decode (toTag s))" and "plain (rules ss)"
    by (simp_all add: rules_def plain_def)
  with Cons.IH show ?case by (simp add: rules_def decode_ReplaceAll)
qed

lemma apply_substitutions_applyR:
  "plain (rules ss) \<Longrightarrow> apply_substitutions ss b = concat (applyR (rules ss) (decode b))"
  using decode_apply_substitutions [of ss b] concat_decode [of "apply_substitutions ss b"] by simp

lemma convergent_idem:
  assumes "convergent (rules ss)" and "plain (rules ss)"
  shows "apply_substitutions ss (apply_substitutions ss b) = apply_substitutions ss b"
proof -
  have "apply_substitutions ss (apply_substitutions ss b)
          = concat (applyR (rules ss) (decode (apply_substitutions ss b)))"
    by (rule apply_substitutions_applyR [OF assms(2)])
  also have "\<dots> = concat (applyR (rules ss) (applyR (rules ss) (decode b)))"
    by (simp only: decode_apply_substitutions [OF assms(2)])
  also have "\<dots> = concat (applyR (rules ss) (decode b))"
    by (simp only: applyR_idem [OF assms(1)])
  also have "\<dots> = apply_substitutions ss b"
    by (rule apply_substitutions_applyR [OF assms(2), symmetric])
  finally show ?thesis .
qed

lemma conv_yaml: "convergent (rules (rules_for ''config/default/manager_auth_proxy_patch.yaml''))"
  by code_simp

lemma conv_gomod: "convergent (rules (rules_for ''go.mod''))"
  by code_simp

lemma conv_dockerfile: "convergent (rules (rules_for ''Dockerfile''))"
  by code_simp

lemma plain_table:
  "plain (rules (rules_for ''config/default/manager_auth_proxy_patch.yaml''))"
  "plain (rules (rules_for ''Dockerfile''))"
  "plain (rules (rules_for ''go.mod''))"
  by code_simp+


section \<open>Two runs in a row\<close>

text \<open>
  Each rule list of the table is convergent and plain, by computation; so applying a list
  to its own result returns that result, whatever the bytes of the text are. A second run of the applier therefore finds every file
  of the table in place, succeeds, and writes back what it read.
\<close>

lemma table_rules_for:
  "imageSubstitutions =
     [(''config/default/manager_auth_proxy_patch.yaml'', rules_for ''config/default/manager_auth_proxy_patch.yaml''),
      (''Dockerfile'', rules_for ''Dockerfile''), (''go.mod'', rules_for ''go.mod'')]"
  by (simp add: rules_for_def imageSubstitutions_def)

lemma table_idem:
  "(p, ss) \<in> set imageSubstitutions \<Longrightarrow>
   apply_substitutions ss (apply_substitutions ss b) = apply_substitutions ss b"
  by (subst (asm) table_rules_for)
     (auto intro: convergent_idem conv_yaml conv_gomod conv_dockerfile plain_table)

lemma Scaffold_files:
  "replaceImages order w = (None, w1) \<Longrightarrow>
   files (snd (Scaffold enc pluginKey order w)) = files w1
   \<and> read_fault (snd (Scaffold enc pluginKey order w)) = read_fault w
   \<and> stat_fault (snd (Scaffold enc pluginKey order w)) = stat_fault w
   \<and> write_fault (snd (Scaffold enc pluginKey order w)) = write_fault w"
  by (frule replaceImages_static)
     (auto simp: Scaffold_def EncodePluginConfig_def split: prod.splits option.splits)

lemma Scaffold_success:
  "Scaffold enc pluginKey order w = (None, w') \<Longrightarrow> fst (replaceImages order w) = None"
  by (auto simp: Scaffold_def split: prod.splits option.splits if_splits)

lemma replaceImages_twice:
  assumes o1: "range_order order1" and o2: "range_order order2"
    and run1: "replaceImages order1 w = (None, w1)"
    and same: "files v = files w1" "read_fault v = read_fault w" "stat_fault v = stat_fault w"
      "write_fault v = write_fault w"
  shows "\<exists>v'. replaceImages order2 v = (None, v') \<and> files v' = files v"
proof -
  from run1 have "fst (replaceImages order1 w) = None" by simp
  then have ok1: "\<forall>p\<in>fst ` set order1. io_ok w p" by (simp only: replaceImages_success_iff)
  have content1: "files w1 p = Some \<lparr>content = apply_substitutions ss (content f), mode = mode f\<rparr>"
    if "(p, ss) \<in> set imageSubstitutions" "files w p = Some f" for p ss f
    using replaceImages_content [OF run1 refl range_order_distinct [OF o1], of p ss f] that o1
    by (simp add: range_order_def)
  have ok2: "\<forall>p\<in>fst ` set order2. io_ok v p"
  proof
    fix p assume "p \<in> fst ` set order2"
    with o1 o2 have p1: "p \<in> fst ` set order1" by (simp add: range_order_keys)
    with ok1 have ok: "io_ok w p" by blast
    then obtain f where f: "files w p = Some f" by (auto simp: io_ok_def)
    from p1 o1 obtain ss where "(p, ss) \<in> set imageSubstitutions"
      by (auto simp: range_order_def)
    from content1 [OF this f] ok same show "io_ok v p" by (simp add: io_ok_def)
  qed
  then have "fst (replaceImages order2 v) = None" by (simp only: replaceImages_success_iff)
  then obtain v' where run2: "replaceImages order2 v = (None, v')"
    by (cases "replaceImages order2 v") auto
  have "files v' p = files v p" for p
  proof (cases "p \<in> fst ` set order2")
    case False
    from replaceImages_frame [OF run2 False] show ?thesis .
  next
    case True
    then obtain ss where in2: "(p, ss) \<in> set order2" by auto
    with o2 have int: "(p, ss) \<in> set imageSubstitutions" by (simp add: range_order_def)
    from True o1 o2 have "p \<in> fst ` set order1" by (simp add: range_order_keys)
    with ok1 have "io_ok w p" by blast
    then obtain f where f: "files w p = Some f" by (auto simp: io_ok_def)
    from content1 [OF int f] same
    have fv: "files v p = Some \<lparr>content = apply_substitutions ss (content f), mode = mode f\<rparr>"
      by simp
    from replaceImages_content [OF run2 refl range_order_distinct [OF o2] in2 fv]
    show ?thesis by (simp add: fv table_idem [OF int])
  qed
  then have "files v' = files v" by (rule ext)
  with run2 show ?thesis by blast
qed

lemma range_order_rev: "range_order (rev imageSubstitutions)"
  using range_order_table by (simp add: range_order_def)

lemma example_Scaffold_succeeds:
  "fst (Scaffold enc_store ''openshift.sdk.operatorframework.io/v1'' imageSubstitutions example_world) = None"
proof -
  obtain u where "replaceImages imageSubstitutions example_world = (None, u)"
    using example_succeeds by (cases "replaceImages imageSubstitutions example_world") auto
  then show ?thesis by (simp add: Scaffold_def EncodePluginConfig_def enc_store_def)
qed

lemma apply_substitutions_append:
  "apply_substitutions (xs @ ys) b = apply_substitutions ys (apply_substitutions xs b)"
  by (induction xs arbitrary: b) auto


section \<open>Matches in a known context\<close>

text \<open>
  How a rule list acts on a text of which a part is known, first on runes: a pattern that
  cannot begin inside the known part passes over it (\<open>RA_skips\<close>, \<open>RA_skip_free\<close>), a
  pattern that matches at its head replaces the match up to the end of the run of its
  class (\<open>RA_at\<close>), and since no pattern of the table accepts a newline, a text is
  rewritten line by line (\<open>RA_line\<close>). A known text of bytes below \<^verbatim>\<open>0x80\<close> is written
  \<open>decode u\<close>, the newline as the rune \<open>''\<newline>''\<close>. The section ends with the same facts
  on bytes.
\<close>

lemma starts_append:
  "length u = length P \<Longrightarrow> starts (P @ Q) (u @ v) = (starts P u \<and> starts Q v)"
  by (induction P u rule: starts.induct) auto

lemma RA_skips: "A \<noteq> [] \<Longrightarrow> skips A u \<Longrightarrow> RA A r (u @ w) = u @ RA A r w"
  by (rule RA_skip) (auto simp: skips_def list_all_iff)

lemma RA_skip_free:
  assumes "A \<noteq> []" "\<forall>c\<in>set u. \<not> atom_matches (hd A) c"
  shows "RA A r (u @ w) = u @ RA A r w"
  using assms(2)
proof (induction u)
  case Nil
  then show ?case by simp
next
  case (Cons c u)
  from Cons.prems assms(1) have "\<not> starts A (c # u @ w)" by (cases A) auto
  with Cons assms(1) show ?case by (simp add: RA_Cons)
qed

lemma RA_at:
  assumes A: "A \<noteq> []" and len: "length u = length A - 1" and u: "starts (butlast A) u"
    and c: "atom_matches (last A) c"
  shows "RA A r (u @ c # s) = r @ RA A r (dropWhile (atom_matches (last A)) s)"
proof -
  from A have split: "A = butlast A @ [last A]" by simp
  from len have len': "length u = length (butlast A)" by simp
  have "starts (butlast A @ [last A]) (u @ c # s)"
    using u c by (simp add: starts_append [OF len'])
  with split have st: "starts A (u @ c # s)" by simp
  have "after A (u @ c # s) = dropWhile (atom_matches (last A)) s"
    using len c by (simp add: after_def)
  with RA_starts [OF A st] show ?thesis by simp
qed

lemma dropWhile_run:
  "\<forall>x\<in>set t. P x \<Longrightarrow> rest = [] \<or> \<not> P (hd rest) \<Longrightarrow> dropWhile P (t @ rest) = rest"
  by (auto simp: dropWhile_append dropWhile_eq_self_iff)

lemma go_version_atoms:
  "atoms re_go_version =
     [Lit CHR ''g'', Lit CHR ''o'', Lit CHR '' '', Lit CHR ''1'', AnyCharNotNL,
      NotIn [CHR ''2'', CHR ''\<newline>'']]"
  by (simp add: atoms_def re_go_version_def lit_def dot_def)

lemma golang_atoms:
  "atoms re_golang =
     [Lit CHR ''g'', Lit CHR ''o'', Lit CHR ''l'', Lit CHR ''a'', Lit CHR ''n'', Lit CHR ''g'',
      Lit CHR '':'', NotIn [CHR '' '', CHR ''\<newline>'']]"
  by (simp add: atoms_def re_golang_def lit_def tag_def)

lemma x_net_atoms:
  "atoms re_x_net =
     [Lit CHR ''g'', Lit CHR ''o'', Lit CHR ''l'', Lit CHR ''a'', Lit CHR ''n'', Lit CHR ''g'',
      AnyCharNotNL, Lit CHR ''o'', Lit CHR ''r'', Lit CHR ''g'', Lit CHR ''/'', Lit CHR ''x'',
      Lit CHR ''/'', Lit CHR ''n'', Lit CHR ''e'', Lit CHR ''t'', Lit CHR '' '',
      NotIn [CHR '' '', CHR ''\<newline>'']]"
  by (simp add: atoms_def re_x_net_def lit_def dot_def tag_def)

lemma starts_nl: "nl_free A \<Longrightarrow> starts A (x @ ''\<newline>'' # y) = starts A x"
proof (induction A x rule: starts.induct)
  case (2 a A)
  then show ?case by (simp add: nl_free_def)
next
  case (3 a A c s)
  then show ?case by (simp add: nl_free_def)
qed simp

lemma after_nl:
  assumes A: "A \<noteq> []" and nl: "nl_free A" and st: "starts A x"
  shows "after A (x @ ''\<newline>'' # y) = after A x @ ''\<newline>'' # y"
proof -
  from nl A have cls: "\<not> atom_matches (last A) ''\<newline>''"
    by (simp add: nl_free_def list_all_iff)
  from starts_length [OF st] A have "length A - 1 \<le> length x" by simp
  then have "drop (length A - 1) (x @ ''\<newline>'' # y) = drop (length A - 1) x @ ''\<newline>'' # y"
    by simp
  moreover have "dropWhile (atom_matches (last A)) (z @ ''\<newline>'' # y)
      = dropWhile (atom_matches (last A)) z @ ''\<newline>'' # y" for z
    using cls by (induction z) auto
  ultimately show ?thesis by (simp add: after_def)
qed

lemma RA_line:
  assumes A: "A \<noteq> []" and nl: "nl_free A"
  shows "RA A r (x @ ''\<newline>'' # y) = RA A r x @ ''\<newline>'' # RA A r y"
proof (induction x rule: length_induct)
  case (1 x)
  show ?case
  proof (cases x)
    case Nil
    from starts_nl [OF nl, of "[]" y] A have "\<not> starts A (''\<newline>'' # y)" by (cases A) auto
    with Nil A show ?thesis by (simp add: RA_Cons)
  next
    case (Cons c s)
    show ?thesis
    proof (cases "starts A x")
      case True
      then have st: "starts A (x @ ''\<newline>'' # y)" by (simp add: starts_nl [OF nl])
      from 1 after_shorter [OF A True]
      have "RA A r (after A x @ ''\<newline>'' # y) = RA A r (after A x) @ ''\<newline>'' # RA A r y"
        by blast
      with RA_starts [OF A st] RA_starts [OF A True] show ?thesis
        by (simp add: after_nl [OF A nl True])
    next
      case False
      then have "\<not> starts A (x @ ''\<newline>'' # y)" by (simp add: starts_nl [OF nl])
      with False Cons A 1 show ?thesis by (simp add: RA_Cons)
    qed
  qed
qed

lemma applyR_Nil [simp]: "applyR rs [] = []"
  by (induction rs) auto

lemma applyR_line:
  "lines_ok rs \<Longrightarrow> applyR rs (x @ ''\<newline>'' # y) = applyR rs x @ ''\<newline>'' # applyR rs y"
  by (induction rs arbitrary: x y) (auto simp: lines_ok_def RA_line)

lemma applyR_line_start:
  assumes "lines_ok rs" "pre = [] \<or> last pre = ''\<newline>''"
  shows "applyR rs (pre @ line) = applyR rs pre @ applyR rs line"
proof (cases "pre = []")
  case True
  then show ?thesis by simp
next
  case False
  with assms(2) have "pre = butlast pre @ [''\<newline>'']" by (metis append_butlast_last_id)
  then obtain p where p: "pre = p @ [''\<newline>'']" ..
  have "applyR rs (pre @ line) = applyR rs (p @ ''\<newline>'' # line)" by (simp add: p)
  also have "\<dots> = applyR rs p @ ''\<newline>'' # applyR rs line" by (rule applyR_line [OF assms(1)])
  also have "applyR rs p @ [''\<newline>''] = applyR rs pre"
    using applyR_line [OF assms(1), of p "[]"] by (simp add: p)
  then have "applyR rs p @ ''\<newline>'' # applyR rs line = applyR rs pre @ applyR rs line" by simp
  finally show ?thesis .
qed

lemma at_line_startE:
  assumes "at_line_start occ s"
  obtains pre post where "s = pre @ occ @ post" "pre = [] \<or> last pre = CHR ''\<newline>''"
proof -
  from assms consider "prefix occ s" | "sublist (CHR ''\<newline>'' # occ) s"
    by (auto simp: at_line_start_def)
  then show ?thesis
  proof cases
    case 1
    then obtain post where "s = [] @ occ @ post" by (auto simp: prefix_def)
    then show ?thesis using that by blast
  next
    case 2
    then obtain ps ss where "s = ps @ (CHR ''\<newline>'' # occ) @ ss" by (auto simp: sublist_def)
    then have "s = (ps @ [CHR ''\<newline>'']) @ occ @ ss" by simp
    then show ?thesis using that [of "ps @ [CHR ''\<newline>'']" ss] by simp
  qed
qed

lemma RA_head:
  assumes "A \<noteq> []" "r \<noteq> []" "P (hd r)" "P c"
  shows "\<exists>c' s'. RA A r (c # s) = c' # s' \<and> P c'"
proof (cases "starts A (c # s)")
  case True
  with assms show ?thesis by (cases r) (auto simp: RA_Cons)
next
  case False
  with assms show ?thesis by (simp add: RA_Cons)
qed



lemma rules_Dockerfile:
  "rules (rules_for ''Dockerfile'') =
     [(atoms re_ansible, decode ''registry.redhat.io/openshift4/ose-ansible-operator:v4.14''),
      (atoms re_helm, decode ''registry.redhat.io/openshift4/ose-helm-operator:v4.14''),
      (atoms re_distroless, decode ''registry.access.redhat.com/ubi8/ubi-minimal:8.8''),
      (atoms re_golang, decode ''golang:1.20''),
      (atoms re_ubi_micro, decode ''registry.access.redhat.com/ubi8/ubi-micro:8.8'')]"
  by (simp add: rules_def rules_for_def imageSubstitutions_def ocpProductVersion_def
        ubiMinimalVersion_def)

lemma rules_go_mod:
  "rules (rules_for ''go.mod'') =
     [(atoms re_x_net, decode ''golang.org/x/net v0.17.0''),
      (atoms re_go_version, decode ''go 1.20'')]"
  by (simp add: rules_def rules_for_def imageSubstitutions_def)

lemma atoms_nonempty:
  "atoms re_kube_rbac_proxy \<noteq> []" "atoms re_ansible \<noteq> []" "atoms re_helm \<noteq> []"
  "atoms re_distroless \<noteq> []" "atoms re_golang \<noteq> []" "atoms re_ubi_micro \<noteq> []"
  "atoms re_x_net \<noteq> []" "atoms re_go_version \<noteq> []"
  by code_simp+

lemma tag_class:
  "last (atoms re_ansible) = NotIn [CHR '' '', CHR ''\<newline>'']"
  "last (atoms re_helm) = NotIn [CHR '' '', CHR ''\<newline>'']"
  "last (atoms re_distroless) = NotIn [CHR '' '', CHR ''\<newline>'']"
  "last (atoms re_golang) = NotIn [CHR '' '', CHR ''\<newline>'']"
  "last (atoms re_ubi_micro) = NotIn [CHR '' '', CHR ''\<newline>'']"
  "last (atoms re_x_net) = NotIn [CHR '' '', CHR ''\<newline>'']"
  "last (atoms re_go_version) = NotIn [CHR ''2'', CHR ''\<newline>'']"
  by code_simp+

lemma first_literal:
  "hd (atoms re_ansible) = Lit CHR ''q''" "hd (atoms re_helm) = Lit CHR ''q''"
  "hd (atoms re_distroless) = Lit CHR ''g''" "hd (atoms re_golang) = Lit CHR ''g''"
  "hd (atoms re_ubi_micro) = Lit CHR ''r''" "hd (atoms re_x_net) = Lit CHR ''g''"
  "hd (atoms re_go_version) = Lit CHR ''g''"
  by code_simp+

lemma table_lines_ok:
  "lines_ok (rules (rules_for ''Dockerfile''))" "lines_ok (rules (rules_for ''go.mod''))"
  by code_simp+

lemma decode_text:
  "decode ''FROM gcr.io/distroless/static:nonroot''
     = decode ''FROM '' @ decode ''gcr.io/distroless/static:'' @ ''n'' # decode ''onroot''"
  "decode ''FROM registry.access.redhat.com/ubi8/ubi-minimal:8.8''
     = decode ''FROM '' @ decode ''registry.access.redhat.com/ubi8/ubi-minimal:8.8''"
  "decode ''go 1.19'' = decode ''go 1.'' @ ''1'' # decode ''9''"
  by code_simp+

lemma distroless_line:
  "\<exists>X. applyR (rules (rules_for ''Dockerfile'')) (decode ''FROM gcr.io/distroless/static:nonroot'' @ post)
         = decode ''FROM registry.access.redhat.com/ubi8/ubi-minimal:8.8'' @ X"
proof -
  let ?occ = "decode ''FROM gcr.io/distroless/static:nonroot''"
  let ?new = "decode ''FROM registry.access.redhat.com/ubi8/ubi-minimal:8.8''"
  let ?r = "decode ''registry.access.redhat.com/ubi8/ubi-minimal:8.8''"
  let ?A = "atoms re_distroless"
  have 1: "RA (atoms re_ansible) r (?occ @ w) = ?occ @ RA (atoms re_ansible) r w" for r w
    by (rule RA_skips) code_simp+
  have 2: "RA (atoms re_helm) r (?occ @ w) = ?occ @ RA (atoms re_helm) r w" for r w
    by (rule RA_skips) code_simp+
  have 3: "RA ?A ?r (?occ @ w)
             = ?new @ RA ?A ?r (dropWhile (atom_matches (last ?A)) (decode ''onroot'' @ w))" for w
  proof -
    have a: "RA ?A ?r (decode ''FROM '' @ z) = decode ''FROM '' @ RA ?A ?r z" for z
      by (rule RA_skips) code_simp+
    have b: "RA ?A ?r (decode ''gcr.io/distroless/static:'' @ ''n'' # (decode ''onroot'' @ w))
         = ?r @ RA ?A ?r (dropWhile (atom_matches (last ?A)) (decode ''onroot'' @ w))"
      by (rule RA_at) code_simp+
    show ?thesis unfolding decode_text append_assoc append_Cons a b ..
  qed
  have 4: "RA (atoms re_golang) r (?new @ w) = ?new @ RA (atoms re_golang) r w" for r w
    by (rule RA_skips) code_simp+
  have 5: "RA (atoms re_ubi_micro) r (?new @ w) = ?new @ RA (atoms re_ubi_micro) r w" for r w
    by (rule RA_skips) code_simp+
  show ?thesis unfolding rules_Dockerfile applyR.simps 1 2 3 4 5 by blast
qed

lemma go_directive_line:
  "\<exists>X. applyR (rules (rules_for ''go.mod'')) (decode ''go 1.19'' @ post) = decode ''go 1.20'' @ X"
proof -
  have 1: "RA (atoms re_x_net) r (decode ''go 1.19'' @ w)
             = decode ''go 1.19'' @ RA (atoms re_x_net) r w" for r w
    by (rule RA_skips) code_simp+
  have 2: "RA (atoms re_go_version) (decode ''go 1.20'') (decode ''go 1.19'' @ w)
             = decode ''go 1.20'' @ RA (atoms re_go_version) (decode ''go 1.20'')
                 (dropWhile (atom_matches (last (atoms re_go_version))) (decode ''9'' @ w))" for w
  proof -
    have "RA (atoms re_go_version) (decode ''go 1.20'') (decode ''go 1.'' @ ''1'' # (decode ''9'' @ w))
             = decode ''go 1.20'' @ RA (atoms re_go_version) (decode ''go 1.20'')
                 (dropWhile (atom_matches (last (atoms re_go_version))) (decode ''9'' @ w))"
      by (rule RA_at) code_simp+
    then show ?thesis unfolding decode_text append_assoc append_Cons .
  qed
  show ?thesis unfolding rules_go_mod applyR.simps 1 2 by blast
qed


lemma RA_indent:
  assumes "A \<noteq> []" "hd A = Lit a" "[a] \<notin> set ind" "skips A u"
  shows "RA A r (ind @ u @ z) = ind @ u @ RA A r z"
proof -
  have "RA A r (ind @ (u @ z)) = ind @ RA A r (u @ z)"
    using assms(1-3) by (intro RA_skip_free) auto
  also have "RA A r (u @ z) = u @ RA A r z" using assms(1,4) by (rule RA_skips)
  finally show ?thesis by simp
qed

lemma RA_indent_at:
  assumes "A \<noteq> []" "hd A = Lit a" "[a] \<notin> set ind" "length u = length A - 1"
    "starts (butlast A) u" "atom_matches (last A) c"
  shows "RA A r (ind @ u @ c # s) = ind @ r @ RA A r (dropWhile (atom_matches (last A)) s)"
proof -
  have "RA A r (ind @ (u @ c # s)) = ind @ RA A r (u @ c # s)"
    using assms(1-3) by (intro RA_skip_free) auto
  also have "RA A r (u @ c # s) = r @ RA A r (dropWhile (atom_matches (last A)) s)"
    using assms(1,4-6) by (rule RA_at)
  finally show ?thesis by simp
qed

lemma RA_after_delim:
  assumes "A \<noteq> []" "covers [cls] A" "w = [] \<or> \<not> atom_matches cls (hd w)"
  shows "RA A r w = [] \<or> \<not> atom_matches cls (hd (RA A r w))"
  using RA_delim [where P = "atom_matches cls", OF assms(1) no_start_delim [OF assms(2,3)] assms(3)] .

lemma tag_covers:
  "covers [NotIn [CHR '' '', CHR ''\<newline>'']] (atoms re_golang)"
  "covers [NotIn [CHR '' '', CHR ''\<newline>'']] (atoms re_ubi_micro)"
  "covers [NotIn [CHR '' '', CHR ''\<newline>'']] (atoms re_x_net)"
  "covers [NotIn [CHR '' '', CHR ''\<newline>'']] (atoms re_go_version)"
  by code_simp+

lemma tag_delim:
  "(\<not> atom_matches (NotIn [CHR '' '', CHR ''\<newline>'']) x) = (x = '' '' \<or> x = ''\<newline>'')"
  by auto

lemma golang_line:
  assumes ind: "''q'' \<notin> set ind" "''g'' \<notin> set ind" "''r'' \<notin> set ind"
    and c: "c \<noteq> '' ''" "c \<noteq> ''\<newline>''"
  shows "\<exists>X. applyR (rules (rules_for ''Dockerfile'')) (ind @ decode ''golang:'' @ c # s)
               = ind @ decode ''golang:1.20'' @ X
            \<and> (X = [] \<or> hd X = '' '' \<or> hd X = ''\<newline>'')"
proof -
  let ?P = "\<lambda>x. x \<noteq> '' '' \<and> x \<noteq> ''\<newline>''"
  let ?cls = "NotIn [CHR '' '', CHR ''\<newline>'']"
  let ?r1 = "decode ''registry.redhat.io/openshift4/ose-ansible-operator:v4.14''"
  let ?r2 = "decode ''registry.redhat.io/openshift4/ose-helm-operator:v4.14''"
  let ?r3 = "decode ''registry.access.redhat.com/ubi8/ubi-minimal:8.8''"
  let ?r4 = "decode ''golang:1.20''"
  let ?r5 = "decode ''registry.access.redhat.com/ubi8/ubi-micro:8.8''"
  have 1: "RA (atoms re_ansible) r (ind @ decode ''golang:'' @ z)
             = ind @ decode ''golang:'' @ RA (atoms re_ansible) r z" for r z
    by (rule RA_indent [OF atoms_nonempty(2) first_literal(1) ind(1)]) code_simp
  have 2: "RA (atoms re_helm) r (ind @ decode ''golang:'' @ z)
             = ind @ decode ''golang:'' @ RA (atoms re_helm) r z" for r z
    by (rule RA_indent [OF atoms_nonempty(3) first_literal(2) ind(1)]) code_simp
  have 3: "RA (atoms re_distroless) r (ind @ decode ''golang:'' @ z)
             = ind @ decode ''golang:'' @ RA (atoms re_distroless) r z" for r z
    by (rule RA_indent [OF atoms_nonempty(4) first_literal(3) ind(2)]) code_simp
  have hd1: "?P (hd ?r1)" and hd2: "?P (hd ?r2)" and hd3: "?P (hd ?r3)"
    and ne1: "?r1 \<noteq> []" and ne2: "?r2 \<noteq> []" and ne3: "?r3 \<noteq> []"
    by code_simp+
  from c obtain c1 s1 where h1: "RA (atoms re_ansible) ?r1 (c # s) = c1 # s1" "?P c1"
    using RA_head [where P = ?P, OF atoms_nonempty(2) ne1 hd1, of c s] by auto
  then obtain c2 s2 where h2: "RA (atoms re_helm) ?r2 (c1 # s1) = c2 # s2" "?P c2"
    using RA_head [where P = ?P, OF atoms_nonempty(3) ne2 hd2, of c1 s1] by auto
  then obtain c3 s3 where h3: "RA (atoms re_distroless) ?r3 (c2 # s2) = c3 # s3" "?P c3"
    using RA_head [where P = ?P, OF atoms_nonempty(4) ne3 hd3, of c2 s2] by auto
  let ?D = "dropWhile (atom_matches (last (atoms re_golang))) s3"
  let ?X4 = "RA (atoms re_golang) ?r4 ?D"
  let ?X5 = "RA (atoms re_ubi_micro) ?r5 ?X4"
  have 4: "RA (atoms re_golang) ?r4 (ind @ decode ''golang:'' @ c3 # s3) = ind @ ?r4 @ ?X4"
  proof (rule RA_indent_at [OF atoms_nonempty(5) first_literal(4) ind(2)])
    show "atom_matches (last (atoms re_golang)) c3" using h3(2) by (simp add: tag_class)
  qed code_simp+
  have 5: "RA (atoms re_ubi_micro) r (ind @ ?r4 @ z) = ind @ ?r4 @ RA (atoms re_ubi_micro) r z"
    for r z
    by (rule RA_indent [OF atoms_nonempty(6) first_literal(5) ind(3)]) code_simp
  have "?D = [] \<or> \<not> atom_matches ?cls (hd ?D)" unfolding tag_class by (metis hd_dropWhile)
  from RA_after_delim [OF atoms_nonempty(5) tag_covers(1) this]
  have "?X4 = [] \<or> \<not> atom_matches ?cls (hd ?X4)" .
  from RA_after_delim [OF atoms_nonempty(6) tag_covers(2) this]
  have d: "?X5 = [] \<or> hd ?X5 = '' '' \<or> hd ?X5 = ''\<newline>''" unfolding tag_delim by blast
  have "applyR (rules (rules_for ''Dockerfile'')) (ind @ decode ''golang:'' @ c # s)
          = ind @ ?r4 @ ?X5"
    unfolding rules_Dockerfile applyR.simps 1 2 3 h1 h2 h3 4 5 ..
  with d show ?thesis by blast
qed

lemma x_net_line:
  assumes ind: "''g'' \<notin> set ind" and c: "c \<noteq> '' ''" "c \<noteq> ''\<newline>''"
  shows "\<exists>X. applyR (rules (rules_for ''go.mod'')) (ind @ decode ''golang.org/x/net '' @ c # s)
               = ind @ decode ''golang.org/x/net v0.17.0'' @ X
            \<and> (X = [] \<or> hd X = '' '' \<or> hd X = ''\<newline>'')"
proof -
  let ?cls = "NotIn [CHR '' '', CHR ''\<newline>'']"
  let ?r = "decode ''golang.org/x/net v0.17.0''"
  let ?D = "dropWhile (atom_matches (last (atoms re_x_net))) s"
  let ?X1 = "RA (atoms re_x_net) ?r ?D"
  let ?X2 = "RA (atoms re_go_version) (decode ''go 1.20'') ?X1"
  have 1: "RA (atoms re_x_net) ?r (ind @ decode ''golang.org/x/net '' @ c # s) = ind @ ?r @ ?X1"
  proof (rule RA_indent_at [OF atoms_nonempty(7) first_literal(6) ind])
    show "atom_matches (last (atoms re_x_net)) c" using c by (simp add: tag_class)
  qed code_simp+
  have 2: "RA (atoms re_go_version) r (ind @ ?r @ z) = ind @ ?r @ RA (atoms re_go_version) r z"
    for r z
    by (rule RA_indent [OF atoms_nonempty(8) first_literal(7) ind]) code_simp
  have "?D = [] \<or> \<not> atom_matches ?cls (hd ?D)" unfolding tag_class by (metis hd_dropWhile)
  from RA_after_delim [OF atoms_nonempty(7) tag_covers(3) this]
  have "?X1 = [] \<or> \<not> atom_matches ?cls (hd ?X1)" .
  from RA_after_delim [OF atoms_nonempty(8) tag_covers(4) this]
  have d: "?X2 = [] \<or> hd ?X2 = '' '' \<or> hd ?X2 = ''\<newline>''" unfolding tag_delim by blast
  have "applyR (rules (rules_for ''go.mod'')) (ind @ decode ''golang.org/x/net '' @ c # s)
          = ind @ ?r @ ?X2"
    unfolding rules_go_mod applyR.simps 1 2 ..
  with d show ?thesis by blast
qed


text \<open>
  The same on bytes. A rune that a pattern's first literal accepts is that single byte, so
  the scan passes over every byte that is not this literal, also over the bytes of a
  longer rune (\<open>ReplaceAll_skip_free\<close>); and the run of a class \<^verbatim>\<open>[^...]\<close> of bytes below
  \<^verbatim>\<open>0x80\<close> ends at the first byte that is in the class's list, wherever the runes are cut
  (\<open>ReplaceAll_at\<close>).
\<close>

lemma decode_text_append: "list_all ascii u \<Longrightarrow> decode (u @ y) = decode u @ decode y"
  using decode_ascii_text [of u y] decode_ascii_text [of u "[]"] by simp

lemma decode_line:
  "pre = [] \<or> last pre = CHR ''\<newline>'' \<Longrightarrow>
   decode (pre @ y) = decode pre @ decode y \<and> (decode pre = [] \<or> last (decode pre) = ''\<newline>'')"
proof (cases "pre = []")
  case True
  then show ?thesis by simp
next
  case False
  assume "pre = [] \<or> last pre = CHR ''\<newline>''"
  with False have l: "last pre = CHR ''\<newline>''" by simp
  then have a: "ascii (last pre)" by (simp add: ascii_def)
  from False have p: "pre = butlast pre @ [last pre]" by simp
  from decode_snoc [OF a, of "butlast pre"] p l
  have "decode pre = decode (butlast pre) @ [''\<newline>'']" by simp
  with decode_line_start [of pre y] a show ?thesis by simp
qed

lemma apply_line_start:
  assumes "plain (rules ss)" "lines_ok (rules ss)" "pre = [] \<or> last pre = CHR ''\<newline>''"
  shows "apply_substitutions ss (pre @ line) = apply_substitutions ss pre @ apply_substitutions ss line"
proof -
  from decode_line [OF assms(3), of line]
  have d: "decode (pre @ line) = decode pre @ decode line"
    and l: "decode pre = [] \<or> last (decode pre) = ''\<newline>''" by simp_all
  show ?thesis
    unfolding apply_substitutions_applyR [OF assms(1)] d applyR_line_start [OF assms(2) l]
    by simp
qed

lemma ascii_text:
  "list_all ascii ''FROM gcr.io/distroless/static:nonroot''" "list_all ascii ''go 1.19''"
  "list_all ascii ''golang:''" "list_all ascii ''golang.org/x/net ''"
  "list_all ascii ''go 1.2''" "list_all ascii ''go 1.''"
  by code_simp+

lemma distroless_bytes:
  "\<exists>X. apply_substitutions (rules_for ''Dockerfile'') (''FROM gcr.io/distroless/static:nonroot'' @ post)
         = ''FROM registry.access.redhat.com/ubi8/ubi-minimal:8.8'' @ X"
proof -
  from distroless_line [of "decode post"] obtain X where
    "applyR (rules (rules_for ''Dockerfile'')) (decode ''FROM gcr.io/distroless/static:nonroot'' @ decode post)
       = decode ''FROM registry.access.redhat.com/ubi8/ubi-minimal:8.8'' @ X" ..
  then have "apply_substitutions (rules_for ''Dockerfile'') (''FROM gcr.io/distroless/static:nonroot'' @ post)
      = ''FROM registry.access.redhat.com/ubi8/ubi-minimal:8.8'' @ concat X"
    by (simp only: apply_substitutions_applyR [OF plain_table(2)]
          decode_text_append [OF ascii_text(1)] concat_append concat_decode)
  then show ?thesis ..
qed

lemma go_directive_bytes:
  "\<exists>X. apply_substitutions (rules_for ''go.mod'') (''go 1.19'' @ post) = ''go 1.20'' @ X"
proof -
  from go_directive_line [of "decode post"] obtain X where
    "applyR (rules (rules_for ''go.mod'')) (decode ''go 1.19'' @ decode post) = decode ''go 1.20'' @ X" ..
  then have "apply_substitutions (rules_for ''go.mod'') (''go 1.19'' @ post) = ''go 1.20'' @ concat X"
    by (simp only: apply_substitutions_applyR [OF plain_table(3)]
          decode_text_append [OF ascii_text(2)] concat_append concat_decode)
  then show ?thesis ..
qed

lemma decode_indent:
  assumes "list_all ascii u" "u \<noteq> []"
  shows "decode (ind @ u @ c # s)
           = decode ind @ decode u @ (c # take (tail_size c s) s) # decode (drop (tail_size c s) s)"
proof -
  from assms have "ascii (hd (u @ c # s))" by (cases u) auto
  then have "decode (ind @ (u @ c # s)) = decode ind @ decode (u @ c # s)"
    by (intro decode_append) simp
  with assms(1) show ?thesis by (simp add: decode_text_append decode.simps)
qed

lemma no_rune: "a \<notin> set ind \<Longrightarrow> [a] \<notin> set (decode ind)"
  using set_decode [of "[a]" ind] by auto

lemma hd_concat_delim:
  "X = [] \<or> hd X = '' '' \<or> hd X = ''\<newline>'' \<Longrightarrow>
   concat X = [] \<or> hd (concat X) = CHR '' '' \<or> hd (concat X) = CHR ''\<newline>''"
  by (cases X) auto

lemma golang_bytes:
  assumes ind: "CHR ''q'' \<notin> set ind" "CHR ''g'' \<notin> set ind" "CHR ''r'' \<notin> set ind"
    and c: "c \<noteq> CHR '' ''" "c \<noteq> CHR ''\<newline>''"
  shows "\<exists>X. apply_substitutions (rules_for ''Dockerfile'') (ind @ ''golang:'' @ c # s)
               = ind @ ''golang:1.20'' @ X
            \<and> (X = [] \<or> hd X = CHR '' '' \<or> hd X = CHR ''\<newline>'')"
proof -
  let ?c = "c # take (tail_size c s) s"
  let ?S = "decode (drop (tail_size c s) s)"
  have d: "decode (ind @ ''golang:'' @ c # s) = decode ind @ decode ''golang:'' @ ?c # ?S"
    by (rule decode_indent [OF ascii_text(3)]) simp
  from c have "?c \<noteq> '' ''" "?c \<noteq> ''\<newline>''" by simp_all
  from golang_line [OF ind [THEN no_rune] this, of ?S] obtain X where
    X: "applyR (rules (rules_for ''Dockerfile'')) (decode ind @ decode ''golang:'' @ ?c # ?S)
          = decode ind @ decode ''golang:1.20'' @ X"
    and h: "X = [] \<or> hd X = '' '' \<or> hd X = ''\<newline>''" by blast
  have "apply_substitutions (rules_for ''Dockerfile'') (ind @ ''golang:'' @ c # s)
          = ind @ ''golang:1.20'' @ concat X"
    by (simp only: apply_substitutions_applyR [OF plain_table(2)] d X concat_append concat_decode)
  with hd_concat_delim [OF h] show ?thesis by blast
qed

lemma x_net_bytes:
  assumes ind: "CHR ''g'' \<notin> set ind" and c: "c \<noteq> CHR '' ''" "c \<noteq> CHR ''\<newline>''"
  shows "\<exists>X. apply_substitutions (rules_for ''go.mod'') (ind @ ''golang.org/x/net '' @ c # s)
               = ind @ ''golang.org/x/net v0.17.0'' @ X
            \<and> (X = [] \<or> hd X = CHR '' '' \<or> hd X = CHR ''\<newline>'')"
proof -
  let ?c = "c # take (tail_size c s) s"
  let ?S = "decode (drop (tail_size c s) s)"
  have d: "decode (ind @ ''golang.org/x/net '' @ c # s)
             = decode ind @ decode ''golang.org/x/net '' @ ?c # ?S"
    by (rule decode_indent [OF ascii_text(4)]) simp
  from c have "?c \<noteq> '' ''" "?c \<noteq> ''\<newline>''" by simp_all
  from x_net_line [OF ind [THEN no_rune] this, of ?S] obtain X where
    X: "applyR (rules (rules_for ''go.mod'')) (decode ind @ decode ''golang.org/x/net '' @ ?c # ?S)
          = decode ind @ decode ''golang.org/x/net v0.17.0'' @ X"
    and h: "X = [] \<or> hd X = '' '' \<or> hd X = ''\<newline>''" by blast
  have "apply_substitutions (rules_for ''go.mod'') (ind @ ''golang.org/x/net '' @ c # s)
          = ind @ ''golang.org/x/net v0.17.0'' @ concat X"
    by (simp only: apply_substitutions_applyR [OF plain_table(3)] d X concat_append concat_decode)
  with hd_concat_delim [OF h] show ?thesis by blast
qed

lemma ReplaceAll_skips:
  assumes "atoms re \<noteq> []" "list_all ascii u" "skips (atoms re) (decode u)"
  shows "ReplaceAll re (u @ w) r = u @ ReplaceAll re w r"
  by (simp add: ReplaceAll_RA [OF assms(1)] decode_text_append [OF assms(2)]
        RA_skips [OF assms(1,3)] concat_decode)

lemma RA_cont:
  assumes "A \<noteq> []" "hd A = Lit g" "ascii g" "\<forall>b\<in>set x. between 0x80 0xBF b"
  shows "concat (RA A R (decode (x @ y))) = x @ concat (RA A R (decode y))"
  using assms(4)
proof (induction x)
  case Nil
  then show ?case by simp
next
  case (Cons b x)
  then have b: "between 0x80 0xBF b" by simp
  with assms(3) have "b \<noteq> g" by (auto simp: between_def ascii_def)
  with assms(1,2) have "\<not> starts A ([b] # decode (x @ y))" by (cases A) auto
  with Cons assms(1) b show ?case by (simp add: decode_cont RA_Cons)
qed

lemma ReplaceAll_step:
  assumes "atoms re \<noteq> []" "hd (atoms re) = Lit g" "ascii g" "c \<noteq> g"
  shows "ReplaceAll re (c # s) r = c # ReplaceAll re s r"
proof -
  let ?A = "atoms re" and ?k = "tail_size c s"
  from assms(1,2,4) have "\<not> starts ?A ((c # take ?k s) # decode (drop ?k s))"
    by (cases ?A) auto
  with assms(1) have "concat (RA ?A (decode r) (decode (c # s)))
      = c # take ?k s @ concat (RA ?A (decode r) (decode (drop ?k s)))"
    by (simp add: decode.simps RA_Cons)
  also have "take ?k s @ concat (RA ?A (decode r) (decode (drop ?k s)))
      = concat (RA ?A (decode r) (decode (take ?k s @ drop ?k s)))"
    using tail_bytes [of _ c s] by (intro RA_cont [OF assms(1-3), symmetric]) blast
  finally show ?thesis by (simp add: ReplaceAll_RA [OF assms(1)])
qed

lemma ReplaceAll_skip_free:
  assumes "atoms re \<noteq> []" "hd (atoms re) = Lit g" "ascii g" "g \<notin> set v"
  shows "ReplaceAll re (v @ w) r = v @ ReplaceAll re w r"
  using assms(4) by (induction v) (auto simp: ReplaceAll_step [OF assms(1-3)])

lemma class_runes:
  assumes "\<forall>x\<in>set t. x \<notin> set cs"
  shows "\<forall>\<rho>\<in>set (decode t). atom_matches (NotIn cs) \<rho>"
proof
  fix \<rho> assume "\<rho> \<in> set (decode t)"
  from set_decode [OF this] assms show "atom_matches (NotIn cs) \<rho>" by auto
qed

lemma ReplaceAll_at:
  assumes A: "atoms re \<noteq> []" and u: "list_all ascii u" "length u = length (atoms re) - 1"
      "starts (butlast (atoms re)) (decode u)"
    and cls: "last (atoms re) = NotIn cs" "list_all ascii cs"
    and t: "t \<noteq> []" "\<forall>x\<in>set t. x \<notin> set cs"
    and rest: "rest = [] \<or> hd rest \<in> set cs"
  shows "ReplaceAll re (u @ t @ rest) r = r @ ReplaceAll re rest r"
proof -
  let ?A = "atoms re"
  from rest cls(2) have "rest = [] \<or> ascii (hd rest)" by (auto simp: list_all_iff)
  then have d: "decode (u @ t @ rest) = decode u @ decode t @ decode rest"
    by (simp add: decode_text_append [OF u(1)] decode_append)
  from t(1) obtain c S where cS: "decode t = c # S" by (cases "decode t") (auto simp: decode_Nil_iff)
  from class_runes [OF t(2)] cS have c: "atom_matches (last ?A) c"
    and S: "\<forall>\<rho>\<in>set S. atom_matches (last ?A) \<rho>" by (simp_all add: cls(1))
  have e: "decode rest = [] \<or> \<not> atom_matches (last ?A) (hd (decode rest))"
  proof (cases rest)
    case Nil
    then show ?thesis by simp
  next
    case (Cons a rest')
    with rest cls(2) have "a \<in> set cs" "ascii a" by (auto simp: list_all_iff)
    with Cons show ?thesis by (simp add: decode_ascii cls(1))
  qed
  have len: "length (decode u) = length ?A - 1"
    using decode_ascii_text [OF u(1), of "[]"] u(2) by simp
  have "RA ?A (decode r) (decode u @ c # (S @ decode rest))
      = decode r @ RA ?A (decode r) (dropWhile (atom_matches (last ?A)) (S @ decode rest))"
    using A len u(3) c by (rule RA_at)
  also have "dropWhile (atom_matches (last ?A)) (S @ decode rest) = decode rest"
    using S e by (rule dropWhile_run)
  finally show ?thesis by (simp add: ReplaceAll_RA [OF A] d cS concat_decode)
qed


lemma Scaffold_content:
  assumes "range_order order" and "Scaffold enc pluginKey order w = (None, w')"
    and "(p, ss) \<in> set imageSubstitutions" and "files w p = Some f"
  shows "files w' p = Some \<lparr>content = apply_substitutions ss (content f), mode = mode f\<rparr>"
proof -
  from assms(2) have "fst (replaceImages order w) = None" by (rule Scaffold_success)
  then obtain u where run: "replaceImages order w = (None, u)"
    by (cases "replaceImages order w") auto
  from Scaffold_files [OF run, of enc pluginKey] assms(2) have "files w' = files u" by simp
  moreover from assms(1,3) have "(p, ss) \<in> set order" by (simp add: range_order_def)
  from replaceImages_content [OF run refl range_order_distinct [OF assms(1)] this assms(4)]
  have "files u p = Some \<lparr>content = apply_substitutions ss (content f), mode = mode f\<rparr>" by simp
  ultimately show ?thesis by simp
qed


section \<open>The example project\<close>

text \<open>What the three rule lists make of the files of the example project, the runs that
  fail in the example states, and texts that are not ASCII, all by computation. A
  pattern's \<^verbatim>\<open>.\<close> takes the two bytes of \<^verbatim>\<open>U+00E9\<close> as one rune, so the image reference with
  that rune in the place of its first dot is a match, and \<^verbatim>\<open>go 1\<close> followed by that rune
  alone is none, the class finding nothing behind it; with one more byte it is a match.\<close>

lemma example_contents:
  "apply_substitutions (rules_for ''config/default/manager_auth_proxy_patch.yaml'')
     ''image: gcr.io/kubebuilder/kube-rbac-proxy:v0.13.1\<newline>''
     = ''image: registry.redhat.io/openshift4/ose-kube-rbac-proxy:v4.14\<newline>''"
  "apply_substitutions (rules_for ''Dockerfile'')
     ''FROM golang:1.19 as builder\<newline>FROM gcr.io/distroless/static:nonroot\<newline>''
     = ''FROM golang:1.20 as builder\<newline>FROM registry.access.redhat.com/ubi8/ubi-minimal:8.8\<newline>''"
  "apply_substitutions (rules_for ''go.mod'') ''go 1.19\<newline>require golang.org/x/net v0.10.0\<newline>''
     = ''go 1.20\<newline>require golang.org/x/net v0.17.0\<newline>''"
  by code_simp+

text \<open>A failing write is returned as the filesystem gave it (\<^verbatim>\<open>init.go\<close>, lines 140 to 142).\<close>

lemma readonly_fails:
  "fst (replaceImages imageSubstitutions readonly_world) = Some (errorString ''operation not permitted'')"
  by (simp add: table_rules_for io_defs readonly_world_def example_world_def example_files_def
        EPERM_def)

lemma broken_fails:
  "replaceImages (rev imageSubstitutions) broken_world =
     (Some (errorString ''error reading file for substitution: open go.mod: file does not exist''),
      broken_world\<lparr>journal := [EvReadFile ''go.mod'']\<rparr>)"
  by (simp add: table_rules_for io_defs broken_world_def missing_world_def example_world_def
        example_files_def Errorf_def ErrNotExist_def)

lemma hidden_fails:
  "fst (replaceImages imageSubstitutions hidden_world)
     = Some (errorString ''error reading file for substitution: no such file or directory'')"
  "last (journal (snd (replaceImages imageSubstitutions hidden_world))) = EvReadFile ''go.mod''"
  by (simp_all add: table_rules_for io_defs hidden_world_def example_world_def example_files_def
        Errorf_def ENOENT_def)

lemma rune_examples:
  "ReplaceAll re_distroless (''FROM gcr'' @ [CHR 0xC3, CHR 0xA9] @ ''io/distroless/static:nonroot'')
       ''registry.access.redhat.com/ubi8/ubi-minimal:8.8''
     = ''FROM registry.access.redhat.com/ubi8/ubi-minimal:8.8''"
  "\<not> has_match re_go_version (''go 1'' @ [CHR 0xC3, CHR 0xA9])"
  "has_match re_go_version (''go 1'' @ [CHR 0xC3, CHR 0xA9] @ ''x'')"
  by code_simp+


section \<open>The claims\<close>


text \<open>
  Claim C2. The configuration store is reached only when the applier has returned without
  error. When \<^verbatim>\<open>EncodePluginConfig\<close> then answers with an error that is (or wraps) the
  unsupported-field error, the step returns no error; when it answers with any other
  error, the step returns an error whose message is
  \<^verbatim>\<open>error writing plugin config for <pluginKey>: <message of the error>\<close>, which contains
  the plugin key. This holds for every filesystem state, every store and every order of
  visiting the table.
\<close>
theorem Scaffold_plugin_config_error:
  assumes "replaceImages order w = (None, w1)"
    and "enc pluginKey (config w1) = (Some err, c)"
  shows "(As_UnsupportedFieldError err \<longrightarrow> fst (Scaffold enc pluginKey order w) = None) \<and>
         (\<not> As_UnsupportedFieldError err \<longrightarrow>
            fst (Scaffold enc pluginKey order w) =
              Some (errorString (''error writing plugin config for '' @ pluginKey @ '': '' @ Error err))
            \<and> sublist pluginKey (Error (the (fst (Scaffold enc pluginKey order w)))))"
proof -
  let ?msg = "''error writing plugin config for '' @ pluginKey @ '': '' @ Error err"
  have run: "Scaffold enc pluginKey order w =
      (if \<not> As_UnsupportedFieldError err then Some (errorString ?msg) else None,
       w1\<lparr>config := c, journal := journal w1 @ [EvEncodePluginConfig pluginKey]\<rparr>)"
    using assms by (simp add: Scaffold_def EncodePluginConfig_def)
  have "sublist pluginKey ?msg" by (rule sublist_appendI)
  with run show ?thesis by (simp del: append.simps)
qed

theorem Scaffold_plugin_config_error_witness:
  "fst (Scaffold enc_unsupported ''openshift.sdk.operatorframework.io/v1'' imageSubstitutions
          example_world) = None \<and>
   fst (Scaffold enc_broken ''openshift.sdk.operatorframework.io/v1'' imageSubstitutions
          example_world) =
     Some (errorString
       ''error writing plugin config for openshift.sdk.operatorframework.io/v1: yaml: marshal failed'')"
proof -
  obtain w1 where w1: "replaceImages imageSubstitutions example_world = (None, w1)"
    using example_succeeds by (cases "replaceImages imageSubstitutions example_world") auto
  have u: "enc_unsupported ''openshift.sdk.operatorframework.io/v1'' (config w1)
             = (Some (UnsupportedFieldError ''2'' ''plugins''), config w1)"
    by (simp add: enc_unsupported_def)
  have b: "enc_broken ''openshift.sdk.operatorframework.io/v1'' (config w1)
             = (Some (errorString ''yaml: marshal failed''), config w1)"
    by (simp add: enc_broken_def)
  from Scaffold_plugin_config_error [where enc = enc_unsupported, OF w1 u]
    Scaffold_plugin_config_error [where enc = enc_broken, OF w1 b]
  show ?thesis by simp
qed


text \<open>
  Claim C8. In every run of the step the calls it makes are, in this order: filesystem calls
  of the applier, and then, only if the applier returned no error, one single call of
  \<^verbatim>\<open>EncodePluginConfig\<close>, which is the last call of the run. If the applier fails, the
  step returns the applier's error at once, the store is in the state it was in, and no
  call on it was made.
\<close>
theorem Scaffold_marker_after_substitution:
  "\<exists>evs. journal (snd (Scaffold enc pluginKey order w)) = journal w @ evs \<and>
     (case replaceImages order w of
        (Some err, w1) \<Rightarrow>
          Scaffold enc pluginKey order w = (Some err, w1) \<and> config w1 = config w
          \<and> (\<forall>ev\<in>set evs. fs_event ev)
      | (None, w1) \<Rightarrow>
          (\<exists>fs_evs. evs = fs_evs @ [EvEncodePluginConfig pluginKey]
             \<and> journal w1 = journal w @ fs_evs \<and> (\<forall>ev\<in>set fs_evs. fs_event ev)))"
proof -
  obtain r w1 where run: "replaceImages order w = (r, w1)" by (cases "replaceImages order w")
  from replaceImages_journal [OF run] obtain evs where evs: "journal w1 = journal w @ evs"
    and "\<forall>ev\<in>set evs. \<exists>p\<in>fst ` set order. event_path ev = Some p" by blast
  then have fs: "\<forall>ev\<in>set evs. fs_event ev" by (auto simp: fs_event_def)
  show ?thesis
  proof (cases r)
    case None
    with run evs fs show ?thesis
      by (auto simp: Scaffold_def EncodePluginConfig_def split: prod.splits option.splits)
  next
    case (Some err)
    with run evs fs replaceImages_static [OF run] show ?thesis
      by (auto simp: Scaffold_def)
  qed
qed

theorem Scaffold_marker_after_substitution_witness:
  "journal (snd (Scaffold enc_store ''openshift.sdk.operatorframework.io/v1'' imageSubstitutions missing_world))
     = [EvReadFile ''config/default/manager_auth_proxy_patch.yaml'',
        EvStat ''config/default/manager_auth_proxy_patch.yaml'',
        EvWriteFile ''config/default/manager_auth_proxy_patch.yaml''
          ''image: registry.redhat.io/openshift4/ose-kube-rbac-proxy:v4.14\<newline>'' 0x1A4,
        EvReadFile ''Dockerfile'', EvStat ''Dockerfile'',
        EvWriteFile ''Dockerfile''
          ''FROM golang:1.20 as builder\<newline>FROM registry.access.redhat.com/ubi8/ubi-minimal:8.8\<newline>'' 0x1A4,
        EvReadFile ''go.mod'']
   \<and> config (snd (Scaffold enc_store ''openshift.sdk.operatorframework.io/v1'' imageSubstitutions missing_world)) = []"
  using Scaffold_marker_after_substitution
    [of enc_store "''openshift.sdk.operatorframework.io/v1''" imageSubstitutions missing_world]
  by (simp add: Scaffold_def table_rules_for io_defs missing_world_def example_world_def
       example_files_def example_contents Errorf_def)


text \<open>
  Claim C4, as the code has it. When the applier fails and the call that failed, the last
  one it made, is not a write, then the failure is that of reading or of stat-ing a file
  of the table, and the error returned is a new error whose message is
  \<^verbatim>\<open>error reading file for substitution: \<close> (for a read) or
  \<^verbatim>\<open>error reading file info for substitution: \<close> (for a stat) followed by the message of
  the filesystem's error. The message says that the failure happened during substitution;
  it names the path whenever the filesystem's own error does, as the error for a missing
  file does. The applier adds no path of its own. This holds in every order of visiting
  the table and whatever faults the other files have.
\<close>
theorem replaceImages_read_stat_errors_wrapped:
  assumes "range_order order"
    and "replaceImages order w = (Some err, w')"
    and "\<not> is_write (last (journal w'))"
  shows "\<exists>p\<in>fst ` set imageSubstitutions. \<exists>e.
           ((fst (ReadFile p w) = Inl e
               \<and> Error err = ''error reading file for substitution: '' @ Error e)
            \<or> (fst (Stat p w) = Inl e
               \<and> Error err = ''error reading file info for substitution: '' @ Error e))
           \<and> sublist ''substitution'' (Error err)
           \<and> (sublist p (Error e) \<longrightarrow> sublist p (Error err))"
proof -
  from replaceImages_failure [OF assms(2) refl] assms(3) obtain p where p: "p \<in> fst ` set order"
    and cases: "(\<exists>e. fst (ReadFile p w) = Inl e \<and> err = Errorf ''error reading file for substitution: '' e)
     \<or> (\<exists>e. fst (Stat p w) = Inl e \<and> err = Errorf ''error reading file info for substitution: '' e)"
    by blast
  from p assms(1) have pt: "p \<in> fst ` set imageSubstitutions" by (simp add: range_order_keys)
  have s1: "sublist ''substitution'' (''error reading file for '' @ ''substitution'' @ '': '' @ x)" for x
    by (rule sublist_appendI)
  have s2: "sublist ''substitution'' (''error reading file info for '' @ ''substitution'' @ '': '' @ x)" for x
    by (rule sublist_appendI)
  have s3: "sublist p x \<Longrightarrow> sublist p (y @ x)" for x y :: string
    by (auto simp: sublist_def) (metis append.assoc)
  from cases consider
    (rd) e where "fst (ReadFile p w) = Inl e" "err = Errorf ''error reading file for substitution: '' e"
    | (st) e where "fst (Stat p w) = Inl e" "err = Errorf ''error reading file info for substitution: '' e"
    by blast
  then show ?thesis
  proof cases
    case rd
    have "sublist ''substitution'' (Error err)" using s1 [of "Error e"] by (simp add: rd Errorf_def)
    moreover have "sublist p (Error e) \<longrightarrow> sublist p (Error err)"
      using s3 [of "Error e" "''error reading file for substitution: ''"]
      by (simp add: rd Errorf_def del: append.simps)
    ultimately show ?thesis using rd pt by (intro bexI [of _ p] exI [of _ e]) (simp_all add: Errorf_def)
  next
    case st
    have "sublist ''substitution'' (Error err)" using s2 [of "Error e"] by (simp add: st Errorf_def)
    moreover have "sublist p (Error e) \<longrightarrow> sublist p (Error err)"
      using s3 [of "Error e" "''error reading file info for substitution: ''"]
      by (simp add: st Errorf_def del: append.simps)
    ultimately show ?thesis using st pt by (intro bexI [of _ p] exI [of _ e]) (simp_all add: Errorf_def)
  qed
qed

theorem replaceImages_read_stat_errors_wrapped_witness:
  "range_order (rev imageSubstitutions) \<and>
   write_fault broken_world ''Dockerfile'' = Some (errorString ''operation not permitted'') \<and>
   replaceImages (rev imageSubstitutions) broken_world =
     (Some (errorString ''error reading file for substitution: open go.mod: file does not exist''),
      broken_world\<lparr>journal := [EvReadFile ''go.mod'']\<rparr>) \<and>
   \<not> is_write (last (journal (broken_world\<lparr>journal := [EvReadFile ''go.mod'']\<rparr>))) \<and>
   (\<exists>p\<in>fst ` set imageSubstitutions. \<exists>e.
      ((fst (ReadFile p broken_world) = Inl e
          \<and> ''error reading file for substitution: open go.mod: file does not exist''
               = ''error reading file for substitution: '' @ Error e)
       \<or> (fst (Stat p broken_world) = Inl e
          \<and> ''error reading file for substitution: open go.mod: file does not exist''
               = ''error reading file info for substitution: '' @ Error e))
      \<and> sublist ''substitution'' ''error reading file for substitution: open go.mod: file does not exist''
      \<and> (sublist p (Error e) \<longrightarrow>
           sublist p ''error reading file for substitution: open go.mod: file does not exist''))"
proof -
  have nw: "\<not> is_write (last (journal (broken_world\<lparr>journal := [EvReadFile ''go.mod'']\<rparr>)))"
    by simp
  have wf: "write_fault broken_world ''Dockerfile'' = Some (errorString ''operation not permitted'')"
    by (simp add: broken_world_def EPERM_def)
  from replaceImages_read_stat_errors_wrapped [OF range_order_rev broken_fails nw]
    range_order_rev broken_fails nw wf
  show ?thesis by simp
qed

text \<open>
  Claim C4 as stated does not hold: the applier puts no path into the errors it makes, so
  the message names the file only when the filesystem's own error does. A filesystem
  that hides \<^verbatim>\<open>go.mod\<close> answers the read with the bare \<^verbatim>\<open>no such file or directory\<close>; the
  applier then fails on reading \<^verbatim>\<open>go.mod\<close> with
  \<^verbatim>\<open>error reading file for substitution: no such file or directory\<close>, in which the path
  does not occur.
\<close>
theorem replaceImages_error_without_path_counterexample:
  "range_order imageSubstitutions \<and>
   read_fault hidden_world ''go.mod'' = Some (errorString ''no such file or directory'') \<and>
   fst (replaceImages imageSubstitutions hidden_world)
     = Some (errorString ''error reading file for substitution: no such file or directory'') \<and>
   last (journal (snd (replaceImages imageSubstitutions hidden_world))) = EvReadFile ''go.mod'' \<and>
   Error (errorString ''error reading file for substitution: no such file or directory'')
     = ''error reading file for substitution: no such file or directory'' \<and>
   \<not> sublist ''go.mod'' ''error reading file for substitution: no such file or directory''"
proof -
  have "read_fault hidden_world ''go.mod'' = Some (errorString ''no such file or directory'')"
    by (simp add: hidden_world_def ENOENT_def)
  moreover have "\<not> sublist ''go.mod'' ''error reading file for substitution: no such file or directory''"
    by (simp add: sublist_code)
  ultimately show ?thesis using range_order_table hidden_fails by simp
qed


text \<open>
  Claim C5. After a run of the applier that returns no error, every file of the table
  has the mode it had before the run, and every write the applier made on it was called
  with that mode, the one its \<^verbatim>\<open>Stat\<close> had returned.
\<close>
theorem replaceImages_mode_preserved:
  assumes "range_order order" and "replaceImages order w = (None, w')"
  shows "\<forall>p\<in>fst ` set imageSubstitutions. \<exists>f f'.
           files w p = Some f \<and> files w' p = Some f' \<and> mode f' = mode f
           \<and> (\<forall>b m. EvWriteFile p b m \<in> set (new_events w w') \<longrightarrow> m = mode f)"
proof
  fix p assume "p \<in> fst ` set imageSubstitutions"
  with assms(1) have p: "p \<in> fst ` set order" by (simp add: range_order_keys)
  from assms(2) have "fst (replaceImages order w) = None" by simp
  then have "\<forall>q\<in>fst ` set order. io_ok w q" by (simp only: replaceImages_success_iff)
  with p have "io_ok w p" by blast
  then obtain f where f: "files w p = Some f" by (auto simp: io_ok_def)
  from replaceImages_mode [OF assms(2), of p] f
  obtain f' where f': "files w' p = Some f'" "mode f' = mode f" by auto
  from replaceImages_journal [OF assms(2)] obtain evs where evs: "journal w' = journal w @ evs"
    and wr: "\<forall>p b m. EvWriteFile p b m \<in> set evs \<longrightarrow> map_option mode (files w p) = Some m"
    by blast
  have "\<forall>b m. EvWriteFile p b m \<in> set (new_events w w') \<longrightarrow> m = mode f"
    using wr f by (fastforce simp: new_events_def evs)
  with f f' show "\<exists>f f'. files w p = Some f \<and> files w' p = Some f' \<and> mode f' = mode f
           \<and> (\<forall>b m. EvWriteFile p b m \<in> set (new_events w w') \<longrightarrow> m = mode f)" by blast
qed

theorem replaceImages_mode_preserved_witness:
  "range_order imageSubstitutions \<and>
   fst (replaceImages imageSubstitutions example_world) = None \<and>
   map_option mode (files example_world ''Dockerfile'') = Some 0x1A4 \<and>
   map_option mode (files (snd (replaceImages imageSubstitutions example_world)) ''Dockerfile'')
     = Some 0x1A4"
proof -
  have run: "replaceImages imageSubstitutions example_world
               = (None, snd (replaceImages imageSubstitutions example_world))"
    using example_succeeds by (simp add: prod_eq_iff)
  have k: "''Dockerfile'' \<in> fst ` set imageSubstitutions" by (simp add: keys)
  have m: "map_option mode (files example_world ''Dockerfile'') = Some 0x1A4"
    by (simp add: example_world_def example_files_def)
  from replaceImages_mode_preserved [OF range_order_table run] k
  obtain f f' where "files example_world ''Dockerfile'' = Some f"
    "files (snd (replaceImages imageSubstitutions example_world)) ''Dockerfile'' = Some f'"
    "mode f' = mode f" by blast
  with m range_order_table example_succeeds show ?thesis by simp
qed


text \<open>
  Claim C6. A path that is not a key of the table (keys are compared as strings) is left
  alone by the step, whether the step succeeds or fails: the file behind it, if any, is the
  same afterwards, content and mode, and none of the calls the step makes is a read, a stat
  or a write of that path.
\<close>
theorem Scaffold_other_paths_untouched:
  assumes "range_order order" and "p \<notin> fst ` set imageSubstitutions"
  shows "files (snd (Scaffold enc pluginKey order w)) p = files w p
         \<and> (\<forall>ev\<in>set (new_events w (snd (Scaffold enc pluginKey order w))). event_path ev \<noteq> Some p)"
proof -
  obtain r w1 where run: "replaceImages order w = (r, w1)" by (cases "replaceImages order w")
  from assms have p: "p \<notin> fst ` set order" by (simp add: range_order_keys)
  from replaceImages_journal [OF run] obtain evs where evs: "journal w1 = journal w @ evs"
    and on: "\<forall>ev\<in>set evs. \<exists>q\<in>fst ` set order. event_path ev = Some q" by blast
  from on p have no: "\<forall>ev\<in>set evs. event_path ev \<noteq> Some p" by force
  from replaceImages_frame [OF run p] have fr: "files w1 p = files w p" .
  show ?thesis
  proof (cases r)
    case None
    with run evs no fr show ?thesis
      by (auto simp: Scaffold_def EncodePluginConfig_def new_events_def split: prod.splits option.splits)
  next
    case (Some err)
    with run evs no fr show ?thesis by (auto simp: Scaffold_def new_events_def)
  qed
qed

theorem Scaffold_other_paths_untouched_witness:
  "range_order imageSubstitutions \<and> ''main.go'' \<notin> fst ` set imageSubstitutions \<and>
   files (snd (Scaffold enc_store ''openshift.sdk.operatorframework.io/v1'' imageSubstitutions
                 example_world)) ''main.go''
     = Some \<lparr>content = ''package main\<newline>'', mode = 0x1A4\<rparr> \<and>
   EvReadFile ''main.go''
     \<notin> set (new_events example_world
               (snd (Scaffold enc_store ''openshift.sdk.operatorframework.io/v1'' imageSubstitutions
                       example_world)))"
proof -
  have k: "''main.go'' \<notin> fst ` set imageSubstitutions" by (simp add: keys)
  have f: "files example_world ''main.go'' = Some \<lparr>content = ''package main\<newline>'', mode = 0x1A4\<rparr>"
    by (simp add: example_world_def example_files_def)
  from Scaffold_other_paths_untouched [OF range_order_table k, of enc_store
      "''openshift.sdk.operatorframework.io/v1''" example_world] range_order_table k f
  show ?thesis by fastforce
qed


text \<open>
  Claim C3, as the code has it. Let the step succeed on some state, visiting the table in
  any order. When it is run again on the state it left, in any order, then the applier
  returns no error again, and after it, and after the whole second step, every file is
  what it was after the first run: same content, byte for byte, and same mode. The second
  step as a whole returns no error when the store answers the repeated marker request
  with no error or with the unsupported-field error. Files are the same because, for each
  of the three rule lists of the table, applying the list to its own result changes
  nothing, whatever bytes the text is made of (\<open>table_idem\<close>).
\<close>
theorem Scaffold_idempotent:
  assumes "range_order order1" and "range_order order2"
    and "Scaffold enc pluginKey order1 w = (None, w1)"
  shows "(\<exists>w2. replaceImages order2 w1 = (None, w2) \<and> files w2 = files w1)
       \<and> files (snd (Scaffold enc pluginKey order2 w1)) = files w1
       \<and> ((case fst (enc pluginKey (config (snd (replaceImages order2 w1)))) of
              None \<Rightarrow> True | Some err \<Rightarrow> As_UnsupportedFieldError err)
            \<longrightarrow> fst (Scaffold enc pluginKey order2 w1) = None)"
proof -
  from assms(3) have "fst (replaceImages order1 w) = None" by (rule Scaffold_success)
  then obtain u where run1: "replaceImages order1 w = (None, u)"
    by (cases "replaceImages order1 w") auto
  from Scaffold_files [OF run1, of enc pluginKey] assms(3)
  have same: "files w1 = files u" "read_fault w1 = read_fault w" "stat_fault w1 = stat_fault w"
    "write_fault w1 = write_fault w" by simp_all
  from replaceImages_twice [OF assms(1,2) run1 same]
  obtain w2 where run2: "replaceImages order2 w1 = (None, w2)" and fs: "files w2 = files w1"
    by blast
  from Scaffold_files [OF run2, of enc pluginKey] fs
  have "files (snd (Scaffold enc pluginKey order2 w1)) = files w1" by simp
  moreover have "(case fst (enc pluginKey (config w2)) of
              None \<Rightarrow> True | Some err \<Rightarrow> As_UnsupportedFieldError err)
            \<Longrightarrow> fst (Scaffold enc pluginKey order2 w1) = None"
    using run2 by (auto simp: Scaffold_def EncodePluginConfig_def split: prod.splits option.splits)
  ultimately show ?thesis using run2 fs by simp
qed

theorem Scaffold_idempotent_witness:
  "range_order imageSubstitutions \<and> range_order (rev imageSubstitutions) \<and>
   fst (Scaffold enc_store ''openshift.sdk.operatorframework.io/v1'' imageSubstitutions example_world) = None \<and>
   fst (Scaffold enc_store ''openshift.sdk.operatorframework.io/v1'' (rev imageSubstitutions)
         (snd (Scaffold enc_store ''openshift.sdk.operatorframework.io/v1'' imageSubstitutions example_world)))
     = None \<and>
   files (snd (Scaffold enc_store ''openshift.sdk.operatorframework.io/v1'' (rev imageSubstitutions)
         (snd (Scaffold enc_store ''openshift.sdk.operatorframework.io/v1'' imageSubstitutions example_world))))
     = files (snd (Scaffold enc_store ''openshift.sdk.operatorframework.io/v1'' imageSubstitutions example_world))"
proof -
  let ?k = "''openshift.sdk.operatorframework.io/v1''"
  let ?w1 = "snd (Scaffold enc_store ?k imageSubstitutions example_world)"
  have run: "Scaffold enc_store ?k imageSubstitutions example_world = (None, ?w1)"
    using example_Scaffold_succeeds by (simp add: prod_eq_iff)
  have "case fst (enc_store ?k (config (snd (replaceImages (rev imageSubstitutions) ?w1)))) of
          None \<Rightarrow> True | Some err \<Rightarrow> As_UnsupportedFieldError err"
    by (simp add: enc_store_def)
  with Scaffold_idempotent [OF range_order_table range_order_rev run]
    range_order_table range_order_rev example_Scaffold_succeeds
  show ?thesis by blast
qed

text \<open>
  Claim C3 as stated, that the second run succeeds whenever the first does, does not hold:
  the step returns whatever error the store answers the second marker request with. With
  a store that refuses a key it already holds, the first run on the example project
  succeeds and the second fails with the wrapped error of the store, after an applier
  that has succeeded.
\<close>
theorem Scaffold_idempotent_counterexample:
  "range_order imageSubstitutions \<and>
   fst (Scaffold enc_once ''openshift.sdk.operatorframework.io/v1'' imageSubstitutions example_world) = None \<and>
   fst (replaceImages imageSubstitutions
         (snd (Scaffold enc_once ''openshift.sdk.operatorframework.io/v1'' imageSubstitutions example_world)))
     = None \<and>
   fst (Scaffold enc_once ''openshift.sdk.operatorframework.io/v1'' imageSubstitutions
         (snd (Scaffold enc_once ''openshift.sdk.operatorframework.io/v1'' imageSubstitutions example_world)))
     = Some (errorString
         ''error writing plugin config for openshift.sdk.operatorframework.io/v1: plugin config already present'')"
proof -
  let ?k = "''openshift.sdk.operatorframework.io/v1''"
  obtain u where u: "replaceImages imageSubstitutions example_world = (None, u)"
    using example_succeeds by (cases "replaceImages imageSubstitutions example_world") auto
  from replaceImages_static [OF u] have cu: "config u = []" by (simp add: example_world_def)
  let ?w1 = "u\<lparr>config := [?k], journal := journal u @ [EvEncodePluginConfig ?k]\<rparr>"
  from u cu have run1: "Scaffold enc_once ?k imageSubstitutions example_world = (None, ?w1)"
    by (simp add: Scaffold_def EncodePluginConfig_def enc_once_def)
  from replaceImages_static [OF u]
  have "files ?w1 = files u" "read_fault ?w1 = read_fault example_world"
    "stat_fault ?w1 = stat_fault example_world" "write_fault ?w1 = write_fault example_world"
    by simp_all
  from replaceImages_twice [OF range_order_table range_order_table u this]
  obtain v where v: "replaceImages imageSubstitutions ?w1 = (None, v)" by blast
  from replaceImages_static [OF v] have cv: "config v = [?k]" by simp
  from v cv have run2: "fst (Scaffold enc_once ?k imageSubstitutions ?w1)
      = Some (errorString
         ''error writing plugin config for openshift.sdk.operatorframework.io/v1: plugin config already present'')"
    by (simp add: Scaffold_def EncodePluginConfig_def enc_once_def)
  from run1 v run2 range_order_table show ?thesis by simp
qed


text \<open>
  Claim C7. Take a file of the table and one rule of its list, and suppose the rule's
  pattern has no match in the content as the rules before it have left it, read rune by
  rune as the matcher reads it. Then applying the rule returns that content unchanged
  (there is no error to return: \<^verbatim>\<open>ReplaceAll\<close> has none). When no filesystem call fails,
  the applier returns no error, and it writes back, under the mode of the file, the
  content as the other rules of the list have made it, which is then the content of the
  file.
\<close>
theorem no_match_is_no_op:
  assumes "range_order order"
    and "\<forall>q\<in>fst ` set imageSubstitutions. io_ok w q"
    and "(p, ss1 @ s # ss2) \<in> set imageSubstitutions"
    and "files w p = Some f"
    and "\<not> has_match (fromTagRE s) (apply_substitutions ss1 (content f))"
  shows "ReplaceAll (fromTagRE s) (apply_substitutions ss1 (content f)) (toTag s)
           = apply_substitutions ss1 (content f)
       \<and> (\<exists>w'. replaceImages order w = (None, w')
             \<and> files w' p = Some \<lparr>content = apply_substitutions ss2 (apply_substitutions ss1 (content f)),
                                  mode = mode f\<rparr>
             \<and> EvWriteFile p (apply_substitutions ss2 (apply_substitutions ss1 (content f))) (mode f)
                 \<in> set (new_events w w'))"
proof -
  let ?b = "apply_substitutions ss1 (content f)"
  from assms(5) have noop: "ReplaceAll (fromTagRE s) ?b (toTag s) = ?b"
    by (rule ReplaceAll_no_match)
  then have eq: "apply_substitutions (ss1 @ s # ss2) (content f) = apply_substitutions ss2 ?b"
    by (simp add: apply_substitutions_append)
  from assms(1,2) have "\<forall>q\<in>fst ` set order. io_ok w q" by (simp add: range_order_keys)
  then have "fst (replaceImages order w) = None" by (simp only: replaceImages_success_iff)
  then obtain w' where run: "replaceImages order w = (None, w')"
    by (cases "replaceImages order w") auto
  from assms(1,3) have "(p, ss1 @ s # ss2) \<in> set order" by (simp add: range_order_def)
  from replaceImages_content [OF run refl range_order_distinct [OF assms(1)] this assms(4)]
  show ?thesis using noop run by (simp add: eq)
qed

theorem no_match_is_no_op_witness:
  "\<not> has_match re_ansible
       ''FROM golang:1.19 as builder\<newline>FROM gcr.io/distroless/static:nonroot\<newline>'' \<and>
   ReplaceAll re_ansible
       ''FROM golang:1.19 as builder\<newline>FROM gcr.io/distroless/static:nonroot\<newline>''
       ''registry.redhat.io/openshift4/ose-ansible-operator:v4.14''
     = ''FROM golang:1.19 as builder\<newline>FROM gcr.io/distroless/static:nonroot\<newline>'' \<and>
   (\<exists>w'. replaceImages imageSubstitutions example_world = (None, w')
      \<and> files w' ''Dockerfile'' =
          Some \<lparr>content = ''FROM golang:1.20 as builder\<newline>FROM registry.access.redhat.com/ubi8/ubi-minimal:8.8\<newline>'',
                mode = 0x1A4\<rparr>)"
proof -
  let ?b = "''FROM golang:1.19 as builder\<newline>FROM gcr.io/distroless/static:nonroot\<newline>''"
  let ?f = "\<lparr>content = ?b, mode = 0x1A4 :: FileMode\<rparr>"
  let ?s = "\<lparr>fromTagRE = re_ansible,
       toTag = ''registry.redhat.io/openshift4/ose-ansible-operator:v4.14''\<rparr>"
  let ?ss2 = "tl (rules_for ''Dockerfile'')"
  have ok: "\<forall>q\<in>fst ` set imageSubstitutions. io_ok example_world q"
    by (simp add: keys io_ok_def example_world_def example_files_def)
  have mem: "(''Dockerfile'', [] @ ?s # ?ss2) \<in> set imageSubstitutions"
    by (simp add: rules_for_def imageSubstitutions_def ocpProductVersion_def)
  have f: "files example_world ''Dockerfile'' = Some ?f"
    by (simp add: example_world_def example_files_def)
  have "\<not> has_match re_ansible ?b" by code_simp
  then have nm: "\<not> has_match (fromTagRE ?s) (apply_substitutions [] (content ?f))" by simp
  have fin: "apply_substitutions ?ss2 ?b =
     ''FROM golang:1.20 as builder\<newline>FROM registry.access.redhat.com/ubi8/ubi-minimal:8.8\<newline>''"
    by code_simp
  from no_match_is_no_op [OF range_order_table ok mem f nm] nm fin
  show ?thesis by auto
qed


text \<open>
  Claim C1, as the code has it. Let the \<^verbatim>\<open>Dockerfile\<close> have
  \<^verbatim>\<open>FROM gcr.io/distroless/static:nonroot\<close> at the beginning of a line and let \<^verbatim>\<open>go.mod\<close> have
  \<^verbatim>\<open>go 1.19\<close> at the beginning of a line. After a run of the step that returns no error, in
  any order of visiting the table, the \<^verbatim>\<open>Dockerfile\<close> contains
  \<^verbatim>\<open>FROM registry.access.redhat.com/ubi8/ubi-minimal:8.8\<close> and \<^verbatim>\<open>go.mod\<close> contains \<^verbatim>\<open>go 1.20\<close>.
\<close>
theorem Scaffold_concrete_scenario:
  assumes "range_order order"
    and "Scaffold enc pluginKey order w = (None, w')"
    and "files w ''Dockerfile'' = Some fd"
    and "at_line_start ''FROM gcr.io/distroless/static:nonroot'' (content fd)"
    and "files w ''go.mod'' = Some fm"
    and "at_line_start ''go 1.19'' (content fm)"
  shows "\<exists>fd' fm'. files w' ''Dockerfile'' = Some fd'
           \<and> sublist ''FROM registry.access.redhat.com/ubi8/ubi-minimal:8.8'' (content fd')
           \<and> files w' ''go.mod'' = Some fm' \<and> sublist ''go 1.20'' (content fm')"
proof -
  have kd: "(''Dockerfile'', rules_for ''Dockerfile'') \<in> set imageSubstitutions"
    and km: "(''go.mod'', rules_for ''go.mod'') \<in> set imageSubstitutions"
    by (subst table_rules_for, simp)+
  note d = Scaffold_content [OF assms(1,2) kd assms(3)]
  note m = Scaffold_content [OF assms(1,2) km assms(5)]
  from assms(4) obtain pre post where fd: "content fd = pre @ ''FROM gcr.io/distroless/static:nonroot'' @ post"
    and pre: "pre = [] \<or> last pre = CHR ''\<newline>''" by (rule at_line_startE)
  from distroless_bytes [of post] obtain X where
    X: "apply_substitutions (rules_for ''Dockerfile'') (''FROM gcr.io/distroless/static:nonroot'' @ post)
         = ''FROM registry.access.redhat.com/ubi8/ubi-minimal:8.8'' @ X" ..
  have "apply_substitutions (rules_for ''Dockerfile'') (content fd)
      = apply_substitutions (rules_for ''Dockerfile'') pre
        @ ''FROM registry.access.redhat.com/ubi8/ubi-minimal:8.8'' @ X"
    unfolding fd apply_line_start [OF plain_table(2) table_lines_ok(1) pre] X ..
  then have sd: "sublist ''FROM registry.access.redhat.com/ubi8/ubi-minimal:8.8''
      (apply_substitutions (rules_for ''Dockerfile'') (content fd))"
    by (simp only: sublist_appendI)
  from assms(6) obtain pre' post' where fm: "content fm = pre' @ ''go 1.19'' @ post'"
    and pre': "pre' = [] \<or> last pre' = CHR ''\<newline>''" by (rule at_line_startE)
  from go_directive_bytes [of post'] obtain Y where
    Y: "apply_substitutions (rules_for ''go.mod'') (''go 1.19'' @ post') = ''go 1.20'' @ Y" ..
  have "apply_substitutions (rules_for ''go.mod'') (content fm)
      = apply_substitutions (rules_for ''go.mod'') pre' @ ''go 1.20'' @ Y"
    unfolding fm apply_line_start [OF plain_table(3) table_lines_ok(2) pre'] Y ..
  then have sm: "sublist ''go 1.20'' (apply_substitutions (rules_for ''go.mod'') (content fm))"
    by (simp only: sublist_appendI)
  from d m sd sm show ?thesis by simp
qed

theorem Scaffold_concrete_scenario_witness:
  "range_order imageSubstitutions \<and>
   fst (Scaffold enc_store ''openshift.sdk.operatorframework.io/v1'' imageSubstitutions example_world) = None \<and>
   at_line_start ''FROM gcr.io/distroless/static:nonroot''
     ''FROM golang:1.19 as builder\<newline>FROM gcr.io/distroless/static:nonroot\<newline>'' \<and>
   at_line_start ''go 1.19'' ''go 1.19\<newline>require golang.org/x/net v0.10.0\<newline>'' \<and>
   (\<exists>fd' fm'.
      files (snd (Scaffold enc_store ''openshift.sdk.operatorframework.io/v1'' imageSubstitutions
                    example_world)) ''Dockerfile'' = Some fd'
      \<and> sublist ''FROM registry.access.redhat.com/ubi8/ubi-minimal:8.8'' (content fd')
      \<and> files (snd (Scaffold enc_store ''openshift.sdk.operatorframework.io/v1'' imageSubstitutions
                    example_world)) ''go.mod'' = Some fm'
      \<and> sublist ''go 1.20'' (content fm'))"
proof -
  let ?k = "''openshift.sdk.operatorframework.io/v1''"
  let ?d = "''FROM golang:1.19 as builder\<newline>FROM gcr.io/distroless/static:nonroot\<newline>''"
  let ?m = "''go 1.19\<newline>require golang.org/x/net v0.10.0\<newline>''"
  have run: "Scaffold enc_store ?k imageSubstitutions example_world
      = (None, snd (Scaffold enc_store ?k imageSubstitutions example_world))"
    using example_Scaffold_succeeds by (simp add: prod_eq_iff)
  have fd: "files example_world ''Dockerfile'' = Some \<lparr>content = ?d, mode = 0x1A4\<rparr>"
    and fm: "files example_world ''go.mod'' = Some \<lparr>content = ?m, mode = 0x1A4\<rparr>"
    by (simp_all add: example_world_def example_files_def)
  have ad: "at_line_start ''FROM gcr.io/distroless/static:nonroot'' ?d"
    and am: "at_line_start ''go 1.19'' ?m"
    by (simp_all add: at_line_start_def sublist_code)
  from Scaffold_concrete_scenario [OF range_order_table run fd _ fm] ad am
    range_order_table example_Scaffold_succeeds
  show ?thesis by simp
qed

text \<open>
  Claim C1 as stated, for every \<^verbatim>\<open>Dockerfile\<close> in which the text occurs anywhere, does not
  hold: the tag patterns take every character up to the next space or newline, so a match
  of an earlier pattern that ends in the word \<^verbatim>\<open>FROM\<close> takes that word away. In the
  \<^verbatim>\<open>Dockerfile\<close> \<^verbatim>\<open>golang:FROM gcr.io/distroless/static:nonroot\<close> the step leaves
  \<^verbatim>\<open>golang:1.20 registry.access.redhat.com/ubi8/ubi-minimal:8.8\<close>.
\<close>
theorem Scaffold_concrete_scenario_counterexample:
  "files adversarial_world ''Dockerfile''
     = Some \<lparr>content = ''golang:FROM gcr.io/distroless/static:nonroot'', mode = 0x1A4\<rparr> \<and>
   sublist ''FROM gcr.io/distroless/static:nonroot'' ''golang:FROM gcr.io/distroless/static:nonroot'' \<and>
   files adversarial_world ''go.mod''
     = Some \<lparr>content = ''go 1.19\<newline>require golang.org/x/net v0.10.0\<newline>'', mode = 0x1A4\<rparr> \<and>
   sublist ''go 1.19'' ''go 1.19\<newline>require golang.org/x/net v0.10.0\<newline>'' \<and>
   fst (Scaffold enc_store ''openshift.sdk.operatorframework.io/v1'' imageSubstitutions
          adversarial_world) = None \<and>
   files (snd (Scaffold enc_store ''openshift.sdk.operatorframework.io/v1'' imageSubstitutions
                 adversarial_world)) ''Dockerfile''
     = Some \<lparr>content = ''golang:1.20 registry.access.redhat.com/ubi8/ubi-minimal:8.8'', mode = 0x1A4\<rparr> \<and>
   \<not> sublist ''FROM registry.access.redhat.com/ubi8/ubi-minimal:8.8''
         ''golang:1.20 registry.access.redhat.com/ubi8/ubi-minimal:8.8''"
proof -
  let ?k = "''openshift.sdk.operatorframework.io/v1''"
  have ok: "\<forall>p\<in>fst ` set imageSubstitutions. io_ok adversarial_world p"
    by (simp add: keys io_ok_def adversarial_world_def example_world_def example_files_def)
  then have "fst (replaceImages imageSubstitutions adversarial_world) = None"
    by (simp only: replaceImages_success_iff)
  then obtain u where u: "replaceImages imageSubstitutions adversarial_world = (None, u)"
    by (cases "replaceImages imageSubstitutions adversarial_world") auto
  then have ok: "fst (Scaffold enc_store ?k imageSubstitutions adversarial_world) = None"
    by (simp add: Scaffold_def EncodePluginConfig_def enc_store_def)
  then have run: "Scaffold enc_store ?k imageSubstitutions adversarial_world
      = (None, snd (Scaffold enc_store ?k imageSubstitutions adversarial_world))"
    by (simp add: prod_eq_iff)
  have fd: "files adversarial_world ''Dockerfile''
     = Some \<lparr>content = ''golang:FROM gcr.io/distroless/static:nonroot'', mode = 0x1A4\<rparr>"
    and fm: "files adversarial_world ''go.mod''
     = Some \<lparr>content = ''go 1.19\<newline>require golang.org/x/net v0.10.0\<newline>'', mode = 0x1A4\<rparr>"
    by (simp_all add: adversarial_world_def example_world_def example_files_def)
  have kd: "(''Dockerfile'', rules_for ''Dockerfile'') \<in> set imageSubstitutions"
    by (subst table_rules_for) simp
  have ev: "apply_substitutions (rules_for ''Dockerfile'') ''golang:FROM gcr.io/distroless/static:nonroot''
      = ''golang:1.20 registry.access.redhat.com/ubi8/ubi-minimal:8.8''"
    by code_simp
  from Scaffold_content [OF range_order_table run kd fd]
  have out: "files (snd (Scaffold enc_store ?k imageSubstitutions adversarial_world)) ''Dockerfile''
     = Some \<lparr>content = ''golang:1.20 registry.access.redhat.com/ubi8/ubi-minimal:8.8'', mode = 0x1A4\<rparr>"
    by (simp add: ev del: apply_substitutions.simps)
  have s1: "sublist ''FROM gcr.io/distroless/static:nonroot'' ''golang:FROM gcr.io/distroless/static:nonroot''"
    and s2: "sublist ''go 1.19'' ''go 1.19\<newline>require golang.org/x/net v0.10.0\<newline>''"
    and s3: "\<not> sublist ''FROM registry.access.redhat.com/ubi8/ubi-minimal:8.8''
         ''golang:1.20 registry.access.redhat.com/ubi8/ubi-minimal:8.8''"
    by (simp_all add: sublist_code)
  from fd fm ok out s1 s2 s3 show ?thesis by blast
qed


text \<open>
  Claim C9. The second rule of \<^verbatim>\<open>go.mod\<close> has the pattern \<^verbatim>\<open>go 1.[^2\n]+\<close> and the
  replacement \<^verbatim>\<open>go 1.20\<close>. A directive \<^verbatim>\<open>go 1.2\<close> followed by anything is not matched: the
  text \<^verbatim>\<open>go 1.2\<close> and what follows it up to the next \<^verbatim>\<open>g\<close> stay as they are (so
  \<^verbatim>\<open>go 1.20\<close>, \<^verbatim>\<open>go 1.21\<close>, \<^verbatim>\<open>go 1.28\<close> are untouched). A directive \<^verbatim>\<open>go 1.\<close> followed by a
  character that is neither \<^verbatim>\<open>2\<close> nor a newline, as in \<^verbatim>\<open>go 1.19\<close>, is replaced by \<^verbatim>\<open>go 1.20\<close>
  together with all the text behind it up to the next \<^verbatim>\<open>2\<close> or the end of the line.
\<close>
theorem go_version_rule:
  "rules_for ''go.mod'' ! 1 = \<lparr>fromTagRE = re_go_version, toTag = ''go 1.20''\<rparr> \<and>
   (CHR ''g'' \<notin> set v \<longrightarrow>
     ReplaceAll re_go_version (''go 1.2'' @ v @ rest) ''go 1.20''
       = ''go 1.2'' @ v @ ReplaceAll re_go_version rest ''go 1.20'') \<and>
   (c \<noteq> CHR ''2'' \<and> c \<noteq> CHR ''\<newline>'' \<and> (\<forall>x\<in>set t. x \<noteq> CHR ''2'' \<and> x \<noteq> CHR ''\<newline>'')
      \<and> (rest = [] \<or> hd rest = CHR ''2'' \<or> hd rest = CHR ''\<newline>'') \<longrightarrow>
     ReplaceAll re_go_version (''go 1.'' @ c # t @ rest) ''go 1.20''
       = ''go 1.20'' @ ReplaceAll re_go_version rest ''go 1.20'')"
proof (intro conjI impI)
  let ?A = "atoms re_go_version"
  have A: "?A \<noteq> []" by (simp add: go_version_atoms)
  have g: "hd ?A = Lit CHR ''g''" "ascii CHR ''g''" by (simp_all add: go_version_atoms ascii_def)
  show "rules_for ''go.mod'' ! 1 = \<lparr>fromTagRE = re_go_version, toTag = ''go 1.20''\<rparr>"
    by (simp add: rules_for_def imageSubstitutions_def)
  {
    assume v: "CHR ''g'' \<notin> set v"
    have "skips ?A (decode ''go 1.2'')" by code_simp
    with A ascii_text(5)
    have "ReplaceAll re_go_version (''go 1.2'' @ (v @ rest)) ''go 1.20''
            = ''go 1.2'' @ ReplaceAll re_go_version (v @ rest) ''go 1.20''"
      by (rule ReplaceAll_skips)
    moreover from A g v have "ReplaceAll re_go_version (v @ rest) ''go 1.20''
            = v @ ReplaceAll re_go_version rest ''go 1.20''"
      by (rule ReplaceAll_skip_free)
    ultimately show "ReplaceAll re_go_version (''go 1.2'' @ v @ rest) ''go 1.20''
       = ''go 1.2'' @ v @ ReplaceAll re_go_version rest ''go 1.20''"
      by (simp del: append.simps)
  }
  {
    assume h: "c \<noteq> CHR ''2'' \<and> c \<noteq> CHR ''\<newline>'' \<and> (\<forall>x\<in>set t. x \<noteq> CHR ''2'' \<and> x \<noteq> CHR ''\<newline>'')
      \<and> (rest = [] \<or> hd rest = CHR ''2'' \<or> hd rest = CHR ''\<newline>'')"
    have "ReplaceAll re_go_version (''go 1.'' @ (c # t) @ rest) ''go 1.20''
            = ''go 1.20'' @ ReplaceAll re_go_version rest ''go 1.20''"
    proof (rule ReplaceAll_at [OF A ascii_text(6) _ _ tag_class(7)])
      show "length ''go 1.'' = length ?A - 1" by (simp add: go_version_atoms)
      show "starts (butlast ?A) (decode ''go 1.'')" by code_simp
      show "list_all ascii [CHR ''2'', CHR ''\<newline>'']" by (simp add: ascii_def)
      show "c # t \<noteq> []" by simp
      show "\<forall>x\<in>set (c # t). x \<notin> set [CHR ''2'', CHR ''\<newline>'']" using h by simp
      show "rest = [] \<or> hd rest \<in> set [CHR ''2'', CHR ''\<newline>'']" using h by auto
    qed
    then show "ReplaceAll re_go_version (''go 1.'' @ c # t @ rest) ''go 1.20''
       = ''go 1.20'' @ ReplaceAll re_go_version rest ''go 1.20''"
      by simp
  }
qed

theorem go_version_rule_witness:
  "ReplaceAll re_go_version ''go 1.21\<newline>'' ''go 1.20'' = ''go 1.21\<newline>'' \<and>
   ReplaceAll re_go_version ''go 1.19 // min\<newline>go 1.28'' ''go 1.20'' = ''go 1.20\<newline>go 1.28''"
proof -
  have r0: "ReplaceAll re_go_version [] ''go 1.20'' = []" by code_simp
  have r1: "ReplaceAll re_go_version ''\<newline>go 1.28'' ''go 1.20'' = ''\<newline>go 1.28''"
    by code_simp
  from go_version_rule [of "''1\<newline>''" "[]" "CHR ''1''" "''9 // min''"]
  have "ReplaceAll re_go_version (''go 1.2'' @ ''1\<newline>'' @ []) ''go 1.20''
       = ''go 1.2'' @ ''1\<newline>'' @ ReplaceAll re_go_version [] ''go 1.20''"
    by (elim conjE impE) simp_all
  then have a: "ReplaceAll re_go_version ''go 1.21\<newline>'' ''go 1.20'' = ''go 1.21\<newline>''"
    by (simp add: r0)
  from go_version_rule [of "[]" "''\<newline>go 1.28''" "CHR ''1''" "''9 // min''"]
  have "ReplaceAll re_go_version (''go 1.'' @ CHR ''1'' # ''9 // min'' @ ''\<newline>go 1.28'') ''go 1.20''
       = ''go 1.20'' @ ReplaceAll re_go_version ''\<newline>go 1.28'' ''go 1.20''"
    by (elim conjE impE) simp_all
  then have b: "ReplaceAll re_go_version ''go 1.19 // min\<newline>go 1.28'' ''go 1.20'' = ''go 1.20\<newline>go 1.28''"
    by (simp add: r1)
  from a b show ?thesis ..
qed


text \<open>
  Claim C10, as the code has it. The fourth rule of the \<^verbatim>\<open>Dockerfile\<close> is \<^verbatim>\<open>golang:[^ \n]+\<close>
  with the replacement \<^verbatim>\<open>golang:1.20\<close>, the first rule of \<^verbatim>\<open>go.mod\<close> is
  \<^verbatim>\<open>golang.org/x/net [^ \n]+\<close> with the replacement \<^verbatim>\<open>golang.org/x/net v0.17.0\<close>. Whatever the
  tag or version \<open>t\<close> is (not empty, no space, no newline, ending at a space, a newline or
  the end of the text), older or newer, each rule replaces \<^verbatim>\<open>golang:t\<close>, respectively
  \<^verbatim>\<open>golang.org/x/net t\<close>, at the head of the text it scans by exactly its replacement. For
  the whole rule list of the file: where the reference stands on a line behind text in
  which no pattern of the file can begin (no \<^verbatim>\<open>q\<close>, \<^verbatim>\<open>g\<close> or \<^verbatim>\<open>r\<close> in the \<^verbatim>\<open>Dockerfile\<close>, no
  \<^verbatim>\<open>g\<close> in \<^verbatim>\<open>go.mod\<close>), the file afterwards has exactly \<^verbatim>\<open>golang:1.20\<close>, respectively
  \<^verbatim>\<open>golang.org/x/net v0.17.0\<close>, at that place, followed by a space, a newline or the end of
  the text.
\<close>
theorem pins_rewritten:
  "rules_for ''Dockerfile'' ! 3 = \<lparr>fromTagRE = re_golang, toTag = ''golang:1.20''\<rparr> \<and>
   rules_for ''go.mod'' ! 0 = \<lparr>fromTagRE = re_x_net, toTag = ''golang.org/x/net v0.17.0''\<rparr> \<and>
   (t \<noteq> [] \<and> (\<forall>x\<in>set t. x \<noteq> CHR '' '' \<and> x \<noteq> CHR ''\<newline>'')
      \<and> (rest = [] \<or> hd rest = CHR '' '' \<or> hd rest = CHR ''\<newline>'') \<longrightarrow>
      ReplaceAll re_golang (''golang:'' @ t @ rest) ''golang:1.20''
        = ''golang:1.20'' @ ReplaceAll re_golang rest ''golang:1.20'' \<and>
      ReplaceAll re_x_net (''golang.org/x/net '' @ t @ rest) ''golang.org/x/net v0.17.0''
        = ''golang.org/x/net v0.17.0'' @ ReplaceAll re_x_net rest ''golang.org/x/net v0.17.0'') \<and>
   ((pre = [] \<or> last pre = CHR ''\<newline>'') \<and> c \<noteq> CHR '' '' \<and> c \<noteq> CHR ''\<newline>''
      \<and> CHR ''q'' \<notin> set ind \<and> CHR ''g'' \<notin> set ind \<and> CHR ''r'' \<notin> set ind \<longrightarrow>
      (\<exists>X. apply_substitutions (rules_for ''Dockerfile'') (pre @ ind @ ''golang:'' @ c # s)
              = apply_substitutions (rules_for ''Dockerfile'') pre @ ind @ ''golang:1.20'' @ X
           \<and> (X = [] \<or> hd X = CHR '' '' \<or> hd X = CHR ''\<newline>''))) \<and>
   ((pre = [] \<or> last pre = CHR ''\<newline>'') \<and> c \<noteq> CHR '' '' \<and> c \<noteq> CHR ''\<newline>''
      \<and> CHR ''g'' \<notin> set ind \<longrightarrow>
      (\<exists>X. apply_substitutions (rules_for ''go.mod'') (pre @ ind @ ''golang.org/x/net '' @ c # s)
              = apply_substitutions (rules_for ''go.mod'') pre @ ind @ ''golang.org/x/net v0.17.0'' @ X
           \<and> (X = [] \<or> hd X = CHR '' '' \<or> hd X = CHR ''\<newline>'')))"
proof (intro conjI impI)
  show "rules_for ''Dockerfile'' ! 3 = \<lparr>fromTagRE = re_golang, toTag = ''golang:1.20''\<rparr>"
    by (simp add: rules_for_def imageSubstitutions_def)
  show "rules_for ''go.mod'' ! 0 = \<lparr>fromTagRE = re_x_net, toTag = ''golang.org/x/net v0.17.0''\<rparr>"
    by (simp add: rules_for_def imageSubstitutions_def)
next
  assume h: "t \<noteq> [] \<and> (\<forall>x\<in>set t. x \<noteq> CHR '' '' \<and> x \<noteq> CHR ''\<newline>'')
      \<and> (rest = [] \<or> hd rest = CHR '' '' \<or> hd rest = CHR ''\<newline>'')"
  have cls: "list_all ascii [CHR '' '', CHR ''\<newline>'']" by (simp add: ascii_def)
  from h have t: "t \<noteq> []" "\<forall>x\<in>set t. x \<notin> set [CHR '' '', CHR ''\<newline>'']"
    and rest: "rest = [] \<or> hd rest \<in> set [CHR '' '', CHR ''\<newline>'']" by auto
  show "ReplaceAll re_golang (''golang:'' @ t @ rest) ''golang:1.20''
        = ''golang:1.20'' @ ReplaceAll re_golang rest ''golang:1.20''"
  proof (rule ReplaceAll_at [OF atoms_nonempty(5) ascii_text(3) _ _ tag_class(4) cls t rest])
    show "length ''golang:'' = length (atoms re_golang) - 1" by (simp add: golang_atoms)
    show "starts (butlast (atoms re_golang)) (decode ''golang:'')" by code_simp
  qed
  show "ReplaceAll re_x_net (''golang.org/x/net '' @ t @ rest) ''golang.org/x/net v0.17.0''
        = ''golang.org/x/net v0.17.0'' @ ReplaceAll re_x_net rest ''golang.org/x/net v0.17.0''"
  proof (rule ReplaceAll_at [OF atoms_nonempty(7) ascii_text(4) _ _ tag_class(6) cls t rest])
    show "length ''golang.org/x/net '' = length (atoms re_x_net) - 1" by (simp add: x_net_atoms)
    show "starts (butlast (atoms re_x_net)) (decode ''golang.org/x/net '')" by code_simp
  qed
next
  assume h: "(pre = [] \<or> last pre = CHR ''\<newline>'') \<and> c \<noteq> CHR '' '' \<and> c \<noteq> CHR ''\<newline>''
      \<and> CHR ''q'' \<notin> set ind \<and> CHR ''g'' \<notin> set ind \<and> CHR ''r'' \<notin> set ind"
  then obtain X where X: "apply_substitutions (rules_for ''Dockerfile'') (ind @ ''golang:'' @ c # s)
               = ind @ ''golang:1.20'' @ X" "X = [] \<or> hd X = CHR '' '' \<or> hd X = CHR ''\<newline>''"
    using golang_bytes [of ind c s] by blast
  from h have "apply_substitutions (rules_for ''Dockerfile'') (pre @ (ind @ ''golang:'' @ c # s))
      = apply_substitutions (rules_for ''Dockerfile'') pre
        @ apply_substitutions (rules_for ''Dockerfile'') (ind @ ''golang:'' @ c # s)"
    by (intro apply_line_start plain_table table_lines_ok) simp
  with X show "\<exists>X. apply_substitutions (rules_for ''Dockerfile'') (pre @ ind @ ''golang:'' @ c # s)
              = apply_substitutions (rules_for ''Dockerfile'') pre @ ind @ ''golang:1.20'' @ X
           \<and> (X = [] \<or> hd X = CHR '' '' \<or> hd X = CHR ''\<newline>'')"
    by (intro exI [of _ X]) simp
next
  assume h: "(pre = [] \<or> last pre = CHR ''\<newline>'') \<and> c \<noteq> CHR '' '' \<and> c \<noteq> CHR ''\<newline>''
      \<and> CHR ''g'' \<notin> set ind"
  then obtain X where X: "apply_substitutions (rules_for ''go.mod'') (ind @ ''golang.org/x/net '' @ c # s)
               = ind @ ''golang.org/x/net v0.17.0'' @ X"
      "X = [] \<or> hd X = CHR '' '' \<or> hd X = CHR ''\<newline>''"
    using x_net_bytes [of ind c s] by blast
  from h have "apply_substitutions (rules_for ''go.mod'') (pre @ (ind @ ''golang.org/x/net '' @ c # s))
      = apply_substitutions (rules_for ''go.mod'') pre
        @ apply_substitutions (rules_for ''go.mod'') (ind @ ''golang.org/x/net '' @ c # s)"
    by (intro apply_line_start plain_table table_lines_ok) simp
  with X show "\<exists>X. apply_substitutions (rules_for ''go.mod'') (pre @ ind @ ''golang.org/x/net '' @ c # s)
              = apply_substitutions (rules_for ''go.mod'') pre @ ind @ ''golang.org/x/net v0.17.0'' @ X
           \<and> (X = [] \<or> hd X = CHR '' '' \<or> hd X = CHR ''\<newline>'')"
    by (intro exI [of _ X]) simp
qed

theorem pins_rewritten_witness:
  "ReplaceAll re_golang ''golang:1.22 as builder'' ''golang:1.20'' = ''golang:1.20 as builder'' \<and>
   ReplaceAll re_x_net ''golang.org/x/net v0.30.0 // indirect'' ''golang.org/x/net v0.17.0''
     = ''golang.org/x/net v0.17.0 // indirect'' \<and>
   (\<exists>X. apply_substitutions (rules_for ''Dockerfile'') (''# Build\<newline>FROM golang:1.22 as builder'')
          = ''# Build\<newline>FROM golang:1.20'' @ X) \<and>
   (\<exists>X. apply_substitutions (rules_for ''go.mod'') (''require (\<newline>     golang.org/x/net v0.30.0'')
          = ''require (\<newline>     golang.org/x/net v0.17.0'' @ X)"
proof -
  have r1: "ReplaceAll re_golang '' as builder'' ''golang:1.20'' = '' as builder''"
    by code_simp
  have r2: "ReplaceAll re_x_net '' // indirect'' ''golang.org/x/net v0.17.0'' = '' // indirect''"
    by code_simp
  have p1: "apply_substitutions (rules_for ''Dockerfile'') ''# Build\<newline>'' = ''# Build\<newline>''"
    by code_simp
  have p2: "apply_substitutions (rules_for ''go.mod'') ''require (\<newline>'' = ''require (\<newline>''"
    by code_simp
  note P = pins_rewritten [of "''1.22''" "'' as builder''" "''# Build\<newline>''" "CHR ''1''" "''FROM ''"
      "''.22 as builder''"]
  note Q = pins_rewritten [of "''v0.30.0''" "'' // indirect''" "''require (\<newline>''" "CHR ''v''"
      "''     ''" "''0.30.0''"]
  from P have "ReplaceAll re_golang (''golang:'' @ ''1.22'' @ '' as builder'') ''golang:1.20''
        = ''golang:1.20'' @ ReplaceAll re_golang '' as builder'' ''golang:1.20''"
    by (elim conjE impE) simp_all
  then have a: "ReplaceAll re_golang ''golang:1.22 as builder'' ''golang:1.20'' = ''golang:1.20 as builder''"
    by (simp add: r1)
  from Q have "ReplaceAll re_x_net (''golang.org/x/net '' @ ''v0.30.0'' @ '' // indirect'')
          ''golang.org/x/net v0.17.0''
        = ''golang.org/x/net v0.17.0'' @ ReplaceAll re_x_net '' // indirect'' ''golang.org/x/net v0.17.0''"
    by (elim conjE impE) simp_all
  then have b: "ReplaceAll re_x_net ''golang.org/x/net v0.30.0 // indirect'' ''golang.org/x/net v0.17.0''
     = ''golang.org/x/net v0.17.0 // indirect''"
    by (simp add: r2)
  from P have "\<exists>X. apply_substitutions (rules_for ''Dockerfile'')
                 (''# Build\<newline>'' @ ''FROM '' @ ''golang:'' @ CHR ''1'' # ''.22 as builder'')
              = apply_substitutions (rules_for ''Dockerfile'') ''# Build\<newline>'' @ ''FROM '' @ ''golang:1.20'' @ X
           \<and> (X = [] \<or> hd X = CHR '' '' \<or> hd X = CHR ''\<newline>'')"
    by (elim conjE impE) simp_all
  then have c: "\<exists>X. apply_substitutions (rules_for ''Dockerfile'') (''# Build\<newline>FROM golang:1.22 as builder'')
          = ''# Build\<newline>FROM golang:1.20'' @ X"
    unfolding p1 by auto
  from Q have "\<exists>X. apply_substitutions (rules_for ''go.mod'')
                 (''require (\<newline>'' @ ''     '' @ ''golang.org/x/net '' @ CHR ''v'' # ''0.30.0'')
              = apply_substitutions (rules_for ''go.mod'') ''require (\<newline>'' @ ''     ''
                  @ ''golang.org/x/net v0.17.0'' @ X
           \<and> (X = [] \<or> hd X = CHR '' '' \<or> hd X = CHR ''\<newline>'')"
    by (elim conjE impE) simp_all
  then have d: "\<exists>X. apply_substitutions (rules_for ''go.mod'') (''require (\<newline>     golang.org/x/net v0.30.0'')
          = ''require (\<newline>     golang.org/x/net v0.17.0'' @ X"
    unfolding p2 by auto
  from a b c d show ?thesis by blast
qed

text \<open>
  Claim C10 as stated, for every place where a pin stands, does not hold: a pin that
  stands inside the match of another rule of the file goes away with that match. In the
  \<^verbatim>\<open>Dockerfile\<close> \<^verbatim>\<open>FROM registry.access.redhat.com/ubi8/ubi-micro:golang:1.22\<close> the fourth rule makes
  the tag \<^verbatim>\<open>golang:1.20\<close> and the fifth replaces the whole reference, tag included; in the
  \<^verbatim>\<open>go.mod\<close> \<^verbatim>\<open>go 1.19 golang.org/x/net v0.30.0\<close> the second rule takes the line from
  \<^verbatim>\<open>go 1.\<close> to its end. Neither file has its pin after the step.
\<close>
theorem pins_rewritten_counterexample:
  "files pinned_world ''Dockerfile''
     = Some \<lparr>content = ''FROM registry.access.redhat.com/ubi8/ubi-micro:golang:1.22'', mode = 0x1A4\<rparr> \<and>
   sublist ''golang:1.22'' ''FROM registry.access.redhat.com/ubi8/ubi-micro:golang:1.22'' \<and>
   files pinned_world ''go.mod''
     = Some \<lparr>content = ''go 1.19 golang.org/x/net v0.30.0'', mode = 0x1A4\<rparr> \<and>
   sublist ''golang.org/x/net v0.30.0'' ''go 1.19 golang.org/x/net v0.30.0'' \<and>
   fst (Scaffold enc_store ''openshift.sdk.operatorframework.io/v1'' imageSubstitutions pinned_world) = None \<and>
   files (snd (Scaffold enc_store ''openshift.sdk.operatorframework.io/v1'' imageSubstitutions
                 pinned_world)) ''Dockerfile''
     = Some \<lparr>content = ''FROM registry.access.redhat.com/ubi8/ubi-micro:8.8'', mode = 0x1A4\<rparr> \<and>
   \<not> sublist ''golang:1.20'' ''FROM registry.access.redhat.com/ubi8/ubi-micro:8.8'' \<and>
   files (snd (Scaffold enc_store ''openshift.sdk.operatorframework.io/v1'' imageSubstitutions
                 pinned_world)) ''go.mod''
     = Some \<lparr>content = ''go 1.20'', mode = 0x1A4\<rparr> \<and>
   \<not> sublist ''golang.org/x/net v0.17.0'' ''go 1.20''"
proof -
  let ?k = "''openshift.sdk.operatorframework.io/v1''"
  have "\<forall>p\<in>fst ` set imageSubstitutions. io_ok pinned_world p"
    by (simp add: keys io_ok_def pinned_world_def example_world_def example_files_def)
  then have "fst (replaceImages imageSubstitutions pinned_world) = None"
    by (simp only: replaceImages_success_iff)
  then obtain u where u: "replaceImages imageSubstitutions pinned_world = (None, u)"
    by (cases "replaceImages imageSubstitutions pinned_world") auto
  then have ok: "fst (Scaffold enc_store ?k imageSubstitutions pinned_world) = None"
    by (simp add: Scaffold_def EncodePluginConfig_def enc_store_def)
  then have run: "Scaffold enc_store ?k imageSubstitutions pinned_world
      = (None, snd (Scaffold enc_store ?k imageSubstitutions pinned_world))"
    by (simp add: prod_eq_iff)
  have fd: "files pinned_world ''Dockerfile''
     = Some \<lparr>content = ''FROM registry.access.redhat.com/ubi8/ubi-micro:golang:1.22'', mode = 0x1A4\<rparr>"
    and fm: "files pinned_world ''go.mod''
     = Some \<lparr>content = ''go 1.19 golang.org/x/net v0.30.0'', mode = 0x1A4\<rparr>"
    by (simp_all add: pinned_world_def example_world_def example_files_def)
  have kd: "(''Dockerfile'', rules_for ''Dockerfile'') \<in> set imageSubstitutions"
    and km: "(''go.mod'', rules_for ''go.mod'') \<in> set imageSubstitutions"
    by (subst table_rules_for, simp)+
  have evd: "apply_substitutions (rules_for ''Dockerfile'')
        ''FROM registry.access.redhat.com/ubi8/ubi-micro:golang:1.22''
      = ''FROM registry.access.redhat.com/ubi8/ubi-micro:8.8''"
    and evm: "apply_substitutions (rules_for ''go.mod'') ''go 1.19 golang.org/x/net v0.30.0'' = ''go 1.20''"
    by code_simp+
  from Scaffold_content [OF range_order_table run kd fd]
  have outd: "files (snd (Scaffold enc_store ?k imageSubstitutions pinned_world)) ''Dockerfile''
     = Some \<lparr>content = ''FROM registry.access.redhat.com/ubi8/ubi-micro:8.8'', mode = 0x1A4\<rparr>"
    by (simp add: evd del: apply_substitutions.simps)
  from Scaffold_content [OF range_order_table run km fm]
  have outm: "files (snd (Scaffold enc_store ?k imageSubstitutions pinned_world)) ''go.mod''
     = Some \<lparr>content = ''go 1.20'', mode = 0x1A4\<rparr>"
    by (simp add: evm del: apply_substitutions.simps)
  have s1: "sublist ''golang:1.22'' ''FROM registry.access.redhat.com/ubi8/ubi-micro:golang:1.22''"
    and s2: "sublist ''golang.org/x/net v0.30.0'' ''go 1.19 golang.org/x/net v0.30.0''"
    and s3: "\<not> sublist ''golang:1.20'' ''FROM registry.access.redhat.com/ubi8/ubi-micro:8.8''"
    and s4: "\<not> sublist ''golang.org/x/net v0.17.0'' ''go 1.20''"
    by (simp_all add: sublist_code)
  from fd fm ok outd outm s1 s2 s3 s4 show ?thesis by blast
qed


end
